theory Spec2Isabelle
  imports Main
begin

section \<open>The queue worker of cog's director\<close>

text \<open>
  A shallow embedding of \<^verbatim>\<open>src/python/cog/director/queue_worker.py\<close>.

  The worker talks to four collaborators that are not part of the file: the Redis
  consumer (\<^verbatim>\<open>get\<close>, \<^verbatim>\<open>checker\<close>, \<^verbatim>\<open>ack\<close>), the HTTP
  server of the model container, the two events (\<^verbatim>\<open>prediction_event\<close>,
  \<^verbatim>\<open>shutdown_event\<close>) and one end of a \<^verbatim>\<open>multiprocessing\<close> connection.
  Every call to a collaborator is an \<^emph>\<open>event\<close> of the run, recorded in program order,
  and every answer of a collaborator is an input of the model: the functions below take
  the answers the environment gives and return how the code exits, the events it
  produced and the state it left behind.

  The signals are read where the code reads them and nowhere else: what an event
  holds between two reads is not part of the model.
\<close>

subsection \<open>JSON values and Python exceptions\<close>

text \<open>
  What \<^verbatim>\<open>json.loads\<close> returns. A dict is an association list in insertion order;
  Python's \<^verbatim>\<open>None\<close> is \<open>JNull\<close>. Floats are left out.
\<close>

datatype json =
    JNull
  | JBool bool
  | JNum int
  | JStr string
  | JArr "json list"
  | JObj "(string \<times> json) list"

text \<open>
  The exceptions the code can meet, all of them subclasses of \<^verbatim>\<open>Exception\<close>.
  \<open>HTTPError\<close> carries the status code \<^verbatim>\<open>raise_for_status\<close> rejected;
  \<open>RequestException\<close> is a failure of the HTTP transport; \<open>RetryError\<close> (one of its
  subclasses) is what the retrying client raises when its retries are used up on a status
  code of its list; \<open>OtherException\<close> is any other failure a collaborator raises.
\<close>

datatype exn =
    EmptyRedisStream
  | JSONDecodeError
  | AttributeError
  | KeyError string
  | TypeError
  | HTTPError nat
  | RequestException
  | RetryError
  | OtherException string

text \<open>\<^verbatim>\<open>d[k]\<close>: a dict raises \<^verbatim>\<open>KeyError\<close> for a missing key, and no other
  JSON value can be indexed by a string.\<close>

fun subscript :: "json \<Rightarrow> string \<Rightarrow> exn + json" where
  "subscript (JObj kvs) k = (case map_of kvs k of None \<Rightarrow> Inl (KeyError k) | Some v \<Rightarrow> Inr v)"
| "subscript _ k = Inl TypeError"

text \<open>\<^verbatim>\<open>d.get(k)\<close>: \<^verbatim>\<open>None\<close> for a missing key; only a dict has the method.\<close>

fun dict_get :: "json \<Rightarrow> string \<Rightarrow> exn + json" where
  "dict_get (JObj kvs) k = Inr (case map_of kvs k of None \<Rightarrow> JNull | Some v \<Rightarrow> v)"
| "dict_get _ k = Inl AttributeError"

text \<open>\<^verbatim>\<open>d[k] = v\<close> on the items of a dict: an existing key keeps its place, a new
  key goes last.\<close>

fun dict_items_set :: "(string \<times> json) list \<Rightarrow> string \<Rightarrow> json \<Rightarrow> (string \<times> json) list" where
  "dict_items_set [] k v = [(k, v)]"
| "dict_items_set ((k', v') # kvs) k v =
     (if k' = k then (k, v) # kvs else (k', v') # dict_items_set kvs k v)"

fun setitem :: "json \<Rightarrow> string \<Rightarrow> json \<Rightarrow> exn + json" where
  "setitem (JObj kvs) k v = Inr (JObj (dict_items_set kvs k v))"
| "setitem _ k v = Inl TypeError"

subsection \<open>HTTP answers\<close>

text \<open>
  What the server does to a request: it answers with a status code, or the transport
  fails. For a request through \<^verbatim>\<open>self.cog_client\<close> this is what happens at the
  last attempt the client makes.
\<close>

datatype http_result = Response nat | RequestFailed

text \<open>\<^verbatim>\<open>_make_local_http_client\<close>: the session retries a \<^verbatim>\<open>POST\<close> that is
  answered with one of these codes (\<^verbatim>\<open>Retry(total=3, status_forcelist=[...])\<close>),
  and when the last attempt is answered with one of them too, \<^verbatim>\<open>post\<close> raises a
  \<^verbatim>\<open>RetryError\<close> instead of returning the response.\<close>

definition status_forcelist :: "nat list" where
  "status_forcelist = [429, 500, 502, 503, 504]"

text \<open>\<^verbatim>\<open>resp.raise_for_status()\<close> raises for the 4xx and 5xx codes only.\<close>

definition raise_for_status :: "nat \<Rightarrow> exn + unit" where
  "raise_for_status status_code =
     (if 400 \<le> status_code \<and> status_code < 600 then Inl (HTTPError status_code) else Inr ())"

text \<open>\<^verbatim>\<open>resp = self.cog_client.post(...); resp.raise_for_status()\<close>: the request
  raises, or the check of the status code does, or neither.\<close>

definition request_outcome :: "http_result \<Rightarrow> exn + unit" where
  "request_outcome answer =
     (case answer of
        RequestFailed \<Rightarrow> Inl RequestException
      | Response status_code \<Rightarrow>
          if status_code \<in> set status_forcelist then Inl RetryError
          else raise_for_status status_code)"

text \<open>
  What \<^verbatim>\<open>requests.get(.../health-check)\<close> does: it raises a
  \<^verbatim>\<open>RequestException\<close>, or returns a response with a status code and a body
  (\<open>None\<close> where \<^verbatim>\<open>resp.json()\<close> raises).
\<close>

datatype health_result = HealthFailed | HealthResponse nat "json option"

subsection \<open>Events and state\<close>

type_synonym message_id = string

text \<open>A call to a collaborator, with its arguments and, where the code reads it, the
  answer it got.\<close>

datatype event =
    HealthCheck string health_result
  | Sleep
  | LogInfo string
  | LogException exn
  | ShutdownIsSet bool
  | RedisGet
  | RedisChecker json
  | PipePoll bool
  | PipeRecv json
  | PipeSend json
  | EventClear
  | PostPrediction string json http_result
  | EventWait bool
  | ShouldCancel bool
  | PostCancel string http_result
  | RedisAck message_id

text \<open>
  The state the worker shares with its sibling. A \<^verbatim>\<open>Connection\<close> is one end of
  a duplex pipe: \<^verbatim>\<open>send\<close> delivers to the other end, \<^verbatim>\<open>poll\<close> and
  \<^verbatim>\<open>recv\<close> read what the other end sent. \<open>pipe_in\<close> holds what the sibling sent and
  the worker has not read, \<open>pipe_out\<close> what the worker sent and the sibling has not read.
\<close>

record world =
  pipe_in :: "json list"
  pipe_out :: "json list"
  prediction_event :: bool

text \<open>The fields of \<^verbatim>\<open>QueueWorker\<close> that are plain data.\<close>

record queue_worker =
  predict_timeout :: int
  cog_http_base :: string

definition init :: "int \<Rightarrow> queue_worker" where
  "init timeout = \<lparr>predict_timeout = timeout, cog_http_base = ''http://localhost:5000''\<rparr>"

subsection \<open>The supervised wait\<close>

text \<open>
  The answers of the environment in one pass through the \<^verbatim>\<open>while True\<close> loop of
  \<^verbatim>\<open>handle_message\<close>: what \<^verbatim>\<open>prediction_event.wait(POLL_INTERVAL)\<close> returns,
  what \<^verbatim>\<open>should_cancel()\<close> returns, how the cancellation request ends and what
  \<^verbatim>\<open>shutdown_event.is_set()\<close> returns. An answer is used only if the pass makes
  the call.
\<close>

record poll =
  wait_result :: bool
  should_cancel :: bool
  cancel_result :: http_result
  shutdown_set :: bool

datatype loop_exit = Break | Return | Raise exn | Exhausted

text \<open>The cancellation request of one pass: the URL is built by string concatenation,
  which raises \<^verbatim>\<open>TypeError\<close> unless the prediction id is a string.\<close>

definition cancel_prediction ::
  "queue_worker \<Rightarrow> json \<Rightarrow> http_result \<Rightarrow> (exn + unit) \<times> event list" where
  "cancel_prediction self prediction_id answer =
     (case prediction_id of
        JStr s \<Rightarrow>
          (let url = cog_http_base self @ ''/predictions/'' @ s @ ''/cancel''
           in (request_outcome answer, [PostCancel url answer]))
      | _ \<Rightarrow> (Inl TypeError, []))"

text \<open>
  The loop itself. It has no bound of its own; the list of passes is the part of the run
  the environment has answered so far, and \<open>Exhausted\<close> says that the loop is still
  polling after the last of them.
\<close>

fun wait_loop ::
  "queue_worker \<Rightarrow> json \<Rightarrow> poll list \<Rightarrow> world \<Rightarrow> loop_exit \<times> event list \<times> world" where
  "wait_loop self prediction_id [] w = (Exhausted, [], w)"
| "wait_loop self prediction_id (p # ps) w =
     (if wait_result p then (Break, [EventWait True], w\<lparr>prediction_event := True\<rparr>)
      else
        (let w1 = w\<lparr>prediction_event := False\<rparr>;
             (cancelled, cancel_events) =
               (if should_cancel p then cancel_prediction self prediction_id (cancel_result p)
                else (Inr (), []));
             events = [EventWait False, ShouldCancel (should_cancel p)] @ cancel_events
         in case cancelled of
              Inl e \<Rightarrow> (Raise e, events, w1)
            | Inr _ \<Rightarrow>
                if shutdown_set p then (Return, events @ [ShutdownIsSet True], w1)
                else (case wait_loop self prediction_id ps w1 of
                        (exit, later, w2) \<Rightarrow>
                          (exit, events @ [ShutdownIsSet False] @ later, w2))))"

subsection \<open>One message\<close>

text \<open>\<^verbatim>\<open>while pipe.poll(): pipe.recv()\<close> on the unread messages of the worker's end.\<close>

fun drain_pipe :: "json list \<Rightarrow> event list \<times> json list" where
  "drain_pipe [] = ([PipePoll False], [])"
| "drain_pipe (m # ms) =
     (case drain_pipe ms of (events, rest) \<Rightarrow> (PipePoll True # PipeRecv m # events, rest))"

text \<open>
  What \<^verbatim>\<open>redis_consumer.get()\<close> does: it returns the id and the text of a
  message, or raises.
\<close>

datatype get_result = GetRaises exn | GetOk message_id string

text \<open>The answers of the environment during one call of \<^verbatim>\<open>handle_message\<close>.\<close>

record cycle =
  get_answer :: get_result
  post_answer :: http_result
  polls :: "poll list"

datatype outcome = Returned | Raised exn | Polling

text \<open>
  \<^verbatim>\<open>handle_message\<close>. \<open>loads\<close> is \<^verbatim>\<open>json.loads\<close> (\<open>None\<close> where it raises).
  \<open>Polling\<close> is the outcome of a call that is still in its wait loop when the answers
  end.
\<close>

definition handle_message ::
  "(string \<Rightarrow> json option) \<Rightarrow> queue_worker \<Rightarrow> cycle \<Rightarrow> world \<Rightarrow> outcome \<times> event list \<times> world" where
  "handle_message loads self c w =
     (case get_answer c of
        GetRaises e \<Rightarrow>
          (if e = EmptyRedisStream then (Returned, [RedisGet, Sleep], w)
           else (Raised e, [RedisGet], w))
      | GetOk message_id message_json \<Rightarrow>
          (case loads message_json of
             None \<Rightarrow> (Raised JSONDecodeError, [RedisGet], w)
           | Some message \<Rightarrow>
               (case dict_get message ''cancel_key'' of
                  Inl e \<Rightarrow> (Raised e, [RedisGet], w)
                | Inr cancel_key \<Rightarrow>
                    (case subscript message ''id'' of
                       Inl e \<Rightarrow> (Raised e, [RedisGet, RedisChecker cancel_key], w)
                     | Inr prediction_id \<Rightarrow>
                         (case drain_pipe (pipe_in w) of
                            (drained, unread) \<Rightarrow>
                              (let w1 = w\<lparr>pipe_in := unread, pipe_out := pipe_out w @ [message]\<rparr>;
                                   w2 = w1\<lparr>prediction_event := False\<rparr>;
                                   before_post =
                                     [RedisGet, RedisChecker cancel_key] @ drained @
                                     [PipeSend message, EventClear]
                               in case setitem message ''webhook'' (JStr ''http://localhost:4900/webhook'') of
                                    Inl e \<Rightarrow> (Raised e, before_post, w2)
                                  | Inr request \<Rightarrow>
                                      (let url = cog_http_base self @ ''/predictions'';
                                           posted =
                                             before_post @ [PostPrediction url request (post_answer c)]
                                       in case request_outcome (post_answer c) of
                                            Inl e \<Rightarrow> (Raised e, posted, w2)
                                          | Inr _ \<Rightarrow>
                                              (case wait_loop self prediction_id (polls c) w2 of
                                                 (Break, waited, w3) \<Rightarrow>
                                                   (Returned, posted @ waited @ [RedisAck message_id], w3)
                                               | (Return, waited, w3) \<Rightarrow> (Returned, posted @ waited, w3)
                                               | (Raise e, waited, w3) \<Rightarrow> (Raised e, posted @ waited, w3)
                                               | (Exhausted, waited, w3) \<Rightarrow> (Polling, posted @ waited, w3)))))))))"

subsection \<open>Waiting for the model container\<close>

text \<open>Modelled from the spec: \<^verbatim>\<open>schema.Status.SUCCEEDED\<close>, a string enum of
  \<^verbatim>\<open>cog/schema.py\<close> (not among the sources); the spec gives its value as
  "succeeded".\<close>

definition Status_SUCCEEDED :: json where
  "Status_SUCCEEDED = JStr ''succeeded''"

text \<open>The condition on the body, with Python's left-to-right \<^verbatim>\<open>and\<close>.\<close>

definition setup_succeeded :: "json \<Rightarrow> exn + bool" where
  "setup_succeeded body =
     (case subscript body ''status'' of
        Inl e \<Rightarrow> Inl e
      | Inr status \<Rightarrow>
          if status \<noteq> JStr ''healthy'' then Inr False
          else (case subscript body ''setup'' of
                  Inl e \<Rightarrow> Inl e
                | Inr setup \<Rightarrow>
                    if setup = JNull then Inr False
                    else (case subscript setup ''status'' of
                            Inl e \<Rightarrow> Inl e
                          | Inr setup_status \<Rightarrow> Inr (setup_status = Status_SUCCEEDED))))"

text \<open>The answers of the environment in one pass through the first loop of
  \<^verbatim>\<open>start\<close>.\<close>

record setup_poll =
  setup_shutdown :: bool
  health :: health_result

datatype setup_exit = SetupCompleted | SetupShutdown | SetupRaised exn | SetupExhausted

text \<open>\<^verbatim>\<open>int(5 / SETUP_POLL_INTERVAL)\<close> with \<^verbatim>\<open>SETUP_POLL_INTERVAL = 0.1\<close>.\<close>

definition liveness_period :: nat where
  "liveness_period = 50"

text \<open>The end of a pass that did not leave the loop: count it, print the liveness message
  on every fiftieth, sleep.\<close>

definition poll_again :: "nat \<Rightarrow> event list" where
  "poll_again setup_poll_count =
     (if Suc setup_poll_count mod liveness_period = 0
      then [LogInfo ''waiting for model container to complete setup'', Sleep]
      else [Sleep])"

fun setup_wait :: "queue_worker \<Rightarrow> setup_poll list \<Rightarrow> nat \<Rightarrow> setup_exit \<times> event list" where
  "setup_wait self [] setup_poll_count = (SetupExhausted, [])"
| "setup_wait self (p # ps) setup_poll_count =
     (if setup_shutdown p then (SetupShutdown, [ShutdownIsSet True])
      else
        (let asked =
               [ShutdownIsSet False, HealthCheck (cog_http_base self @ ''/health-check'') (health p)];
             retry = (case setup_wait self ps (Suc setup_poll_count) of
                        (exit, later) \<Rightarrow> (exit, asked @ poll_again setup_poll_count @ later))
         in case health p of
              HealthFailed \<Rightarrow> retry
            | HealthResponse status_code body \<Rightarrow>
                if status_code = 200 then
                  (case body of
                     None \<Rightarrow> (SetupRaised JSONDecodeError, asked)
                   | Some b \<Rightarrow>
                       (case setup_succeeded b of
                          Inl e \<Rightarrow> (SetupRaised e, asked)
                        | Inr True \<Rightarrow>
                            (SetupCompleted, asked @ [LogInfo ''model container completed setup''])
                        | Inr False \<Rightarrow> retry))
                else retry))"

subsection \<open>The main loop\<close>

text \<open>
  One pass through the main loop of \<^verbatim>\<open>start\<close>: what
  \<^verbatim>\<open>shutdown_event.is_set()\<close> returns at the head of the loop, what the sibling did
  to the pipe since the pass before (how many of the worker's messages it read, and what
  it sent), and the answers to the call of \<^verbatim>\<open>handle_message\<close>.
\<close>

record iteration =
  shutdown_answer :: bool
  sibling_read :: nat
  sibling_sent :: "json list"
  answers :: cycle

definition sibling_acts :: "iteration \<Rightarrow> world \<Rightarrow> world" where
  "sibling_acts it w =
     w\<lparr>pipe_in := pipe_in w @ sibling_sent it, pipe_out := drop (sibling_read it) (pipe_out w)\<rparr>"

datatype run_exit = Exited | Crashed exn | Running

text \<open>
  \<^verbatim>\<open>while not self.shutdown_event.is_set(): try: self.handle_message()
  except Exception: log.exception(...)\<close>, then the farewell. \<open>Running\<close> is the exit of a
  run that is still in the loop when the answers end.
\<close>

fun main_loop ::
  "(string \<Rightarrow> json option) \<Rightarrow> queue_worker \<Rightarrow> iteration list \<Rightarrow> world
     \<Rightarrow> run_exit \<times> event list \<times> world" where
  "main_loop loads self [] w = (Running, [], w)"
| "main_loop loads self (it # its) w =
     (if shutdown_answer it
      then (Exited, [ShutdownIsSet True, LogInfo ''shutting down worker: bye bye!''], w)
      else
        (case handle_message loads self (answers it) (sibling_acts it w) of
           (Polling, events, w1) \<Rightarrow> (Running, ShutdownIsSet False # events, w1)
         | (Raised e, events, w1) \<Rightarrow>
             (case main_loop loads self its w1 of
                (exit, later, w2) \<Rightarrow>
                  (exit, ShutdownIsSet False # events @ [LogException e] @ later, w2))
         | (Returned, events, w1) \<Rightarrow>
             (case main_loop loads self its w1 of
                (exit, later, w2) \<Rightarrow> (exit, ShutdownIsSet False # events @ later, w2))))"

text \<open>The answers of the environment to a whole run.\<close>

record script =
  setup_polls :: "setup_poll list"
  iterations :: "iteration list"

text \<open>\<^verbatim>\<open>start\<close>: the setup loop, then the main loop. An exception of the setup loop
  is not caught.\<close>

definition start ::
  "(string \<Rightarrow> json option) \<Rightarrow> queue_worker \<Rightarrow> script \<Rightarrow> world \<Rightarrow> run_exit \<times> event list \<times> world" where
  "start loads self s w =
     (case setup_wait self (setup_polls s) 0 of
        (SetupRaised e, events) \<Rightarrow> (Crashed e, events, w)
      | (SetupExhausted, events) \<Rightarrow> (Running, events, w)
      | (_, events) \<Rightarrow>
          (case main_loop loads self (iterations s) w of
             (exit, later, w') \<Rightarrow> (exit, events @ later, w')))"

subsection \<open>Kinds of events\<close>

text \<open>The events of a pass that leaves the loop running.\<close>

fun calm :: "event \<Rightarrow> bool" where
  "calm (EventWait b) = (\<not> b)"
| "calm (ShouldCancel b) = True"
| "calm (PostCancel u a) = (request_outcome a = Inr ())"
| "calm (ShutdownIsSet b) = (\<not> b)"
| "calm _ = False"

text \<open>The events of a call before it starts to wait.\<close>

fun dispatching :: "event \<Rightarrow> bool" where
  "dispatching RedisGet = True"
| "dispatching (RedisChecker k) = True"
| "dispatching (PipePoll b) = True"
| "dispatching (PipeRecv m) = True"
| "dispatching (PipeSend m) = True"
| "dispatching EventClear = True"
| "dispatching (PostPrediction u r a) = True"
| "dispatching _ = False"

text \<open>A pass of the wait loop after which the loop goes on: the wait timed out, the
  cancellation (if asked for) went through, and the shutdown event was not set.\<close>

definition uneventful :: "queue_worker \<Rightarrow> json \<Rightarrow> poll \<Rightarrow> bool" where
  "uneventful self prediction_id p =
     (\<not> wait_result p \<and> \<not> shutdown_set p \<and>
      (should_cancel p \<longrightarrow> fst (cancel_prediction self prediction_id (cancel_result p)) = Inr ()))"

text \<open>What a run wrote to the pipe, in order.\<close>

fun sent :: "event list \<Rightarrow> json list" where
  "sent [] = []"
| "sent (PipeSend m # es) = m # sent es"
| "sent (e # es) = sent es"

text \<open>The two log lines that mark the end of the setup loop and the end of the run.\<close>

definition completed_setup :: event where
  "completed_setup = LogInfo ''model container completed setup''"

definition farewell :: event where
  "farewell = LogInfo ''shutting down worker: bye bye!''"

text \<open>What a run did after it first found the shutdown event set.\<close>

fun after_shutdown :: "event list \<Rightarrow> event list" where
  "after_shutdown [] = []"
| "after_shutdown (e # es) = (if e = ShutdownIsSet True then es else after_shutdown es)"

text \<open>The events of a pass of the setup loop that is followed by another.\<close>

fun settling :: "event \<Rightarrow> bool" where
  "settling (ShutdownIsSet b) = (\<not> b)"
| "settling (HealthCheck u a) = True"
| "settling (LogInfo m) = (m = ''waiting for model container to complete setup'')"
| "settling Sleep = True"
| "settling _ = False"

subsection \<open>A run to evaluate\<close>

text \<open>
  One message, as the queue delivers it, and the part of \<^verbatim>\<open>json.loads\<close> that
  reads it (the text of the message is abbreviated to a name).
\<close>

definition example_message :: json where
  "example_message =
     JObj [(''id'', JStr ''p1''), (''cancel_key'', JStr ''c1''), (''input'', JObj [(''x'', JNum 3)])]"

text \<open>A second message, which brings a webhook of its caller.\<close>

definition caller_message :: json where
  "caller_message =
     JObj [(''id'', JStr ''p2''), (''cancel_key'', JStr ''c2''),
           (''webhook'', JStr ''https://caller.example/hook''), (''input'', JObj [(''x'', JNum 4)])]"

definition example_loads :: "string \<Rightarrow> json option" where
  "example_loads s =
     (if s = ''message p1'' then Some example_message
      else if s = ''message p2'' then Some caller_message
      else None)"

definition completes :: poll where
  "completes = \<lparr>wait_result = True, should_cancel = False, cancel_result = Response 200, shutdown_set = False\<rparr>"

definition quiet :: poll where
  "quiet = \<lparr>wait_result = False, should_cancel = False, cancel_result = Response 200, shutdown_set = False\<rparr>"

definition example_cycle :: cycle where
  "example_cycle = \<lparr>get_answer = GetOk ''1-0'' ''message p1'', post_answer = Response 202, polls = [quiet, quiet, completes]\<rparr>"

definition empty_world :: world where
  "empty_world = \<lparr>pipe_in = [], pipe_out = [], prediction_event = False\<rparr>"

text \<open>The second message, completed in the first pass of the wait.\<close>

definition caller_cycle :: cycle where
  "caller_cycle =
     \<lparr>get_answer = GetOk ''2-0'' ''message p2'', post_answer = Response 202, polls = [completes]\<rparr>"

text \<open>The first message when the model container rejects the submission with a 422, and
  when it answers it with a 304.\<close>

definition refused_cycle :: cycle where
  "refused_cycle = example_cycle\<lparr>post_answer := Response 422\<rparr>"

definition not_modified_cycle :: cycle where
  "not_modified_cycle = example_cycle\<lparr>post_answer := Response 304\<rparr>"

text \<open>Passes in which the cancellation is asked for and the request for it fails: the model
  container answers 404, or cannot be reached.\<close>

definition cancel_refused :: poll where
  "cancel_refused = \<lparr>wait_result = False, should_cancel = True, cancel_result = Response 404, shutdown_set = False\<rparr>"

definition cancel_unreachable :: poll where
  "cancel_unreachable = \<lparr>wait_result = False, should_cancel = True, cancel_result = RequestFailed, shutdown_set = False\<rparr>"

definition cancelled_cycle :: cycle where
  "cancelled_cycle = example_cycle\<lparr>polls := [quiet, cancel_refused, completes]\<rparr>"

definition unreachable_cycle :: cycle where
  "unreachable_cycle = example_cycle\<lparr>polls := [cancel_unreachable, quiet]\<rparr>"

text \<open>A pass through the main loop with the shutdown event not set and a sibling that did
  nothing.\<close>

definition idle :: "cycle \<Rightarrow> iteration" where
  "idle c = \<lparr>shutdown_answer = False, sibling_read = 0, sibling_sent = [], answers = c\<rparr>"

text \<open>A whole run: the model container is unreachable at the first health check and ready
  at the second, one message is handled, and the shutdown event is found set at the head
  of the next pass.\<close>

definition ready_body :: json where
  "ready_body = JObj [(''status'', JStr ''healthy''), (''setup'', JObj [(''status'', JStr ''succeeded'')])]"

definition container_starting :: setup_poll where
  "container_starting = \<lparr>setup_shutdown = False, health = HealthFailed\<rparr>"

definition container_ready :: setup_poll where
  "container_ready = \<lparr>setup_shutdown = False, health = HealthResponse 200 (Some ready_body)\<rparr>"

definition shutdown_now :: iteration where
  "shutdown_now = \<lparr>shutdown_answer = True, sibling_read = 0, sibling_sent = [], answers = example_cycle\<rparr>"

definition example_script :: script where
  "example_script =
     \<lparr>setup_polls = [container_starting, container_ready],
      iterations = [idle example_cycle, shutdown_now]\<rparr>"

text \<open>A job during which the shutdown event is set: the check in the second pass of the wait
  finds it.\<close>

definition interrupted :: poll where
  "interrupted = \<lparr>wait_result = False, should_cancel = False, cancel_result = Response 200, shutdown_set = True\<rparr>"

definition interrupted_cycle :: cycle where
  "interrupted_cycle = example_cycle\<lparr>polls := [quiet, interrupted, completes]\<rparr>"

definition interrupted_script :: script where
  "interrupted_script =
     \<lparr>setup_polls = [container_ready], iterations = [idle interrupted_cycle, shutdown_now]\<rparr>"

text \<open>A job during which the shutdown event is set while its cancellation is asked for: the
  second pass of the wait sends the cancellation request, which goes through, and then finds
  the event set.\<close>

definition cancelled_at_shutdown :: poll where
  "cancelled_at_shutdown = \<lparr>wait_result = False, should_cancel = True, cancel_result = Response 200, shutdown_set = True\<rparr>"

definition cancelled_at_shutdown_cycle :: cycle where
  "cancelled_at_shutdown_cycle = example_cycle\<lparr>polls := [quiet, cancelled_at_shutdown, completes]\<rparr>"

text \<open>A queue that cannot be reached.\<close>

definition broken_queue_cycle :: cycle where
  "broken_queue_cycle = example_cycle\<lparr>get_answer := GetRaises (OtherException ''ConnectionError'')\<rparr>"

section \<open>The cross-process channel\<close>

text \<open>
  Modelled from the spec: the channel of \<^verbatim>\<open>cog.server.connection\<close>
  (\<^verbatim>\<open>AsyncConnection\<close>) and the events of \<^verbatim>\<open>cog.server.eventtypes\<close>. Neither
  module is among the sources; only their test \<^verbatim>\<open>tests/server/test_connection.py\<close>
  is. The spec asks for a duplex channel over a byte-oriented transport with two call
  conventions, blocking and suspension-based, and for "a single canonical
  framing/encoding step shared by both code paths". It fixes no byte format; the one
  below is a length-prefixed frame around a tagged encoding of the message.
\<close>

subsection \<open>Bytes, numbers and strings\<close>

text \<open>Modelled from the spec: the bytes of the transport. A length is written in groups
  of seven bits, lowest first, with the top bit of a byte saying that more follow.\<close>

type_synonym bytes = "char list"

fun enc_nat :: "nat \<Rightarrow> bytes" where
  "enc_nat n = (if n < 128 then [char_of n] else char_of (128 + n mod 128) # enc_nat (n div 128))"

fun dec_nat :: "bytes \<Rightarrow> (nat \<times> bytes) option" where
  "dec_nat [] = None"
| "dec_nat (c # cs) =
     (if (of_char c :: nat) < 128 then Some (of_char c, cs)
      else (case dec_nat cs of
              None \<Rightarrow> None
            | Some (n, rest) \<Rightarrow> Some (of_char c - 128 + 128 * n, rest)))"

declare enc_nat.simps [simp del]

text \<open>Modelled from the spec: a string is its length and its bytes.\<close>

definition enc_str :: "string \<Rightarrow> bytes" where
  "enc_str s = enc_nat (length s) @ s"

definition dec_str :: "bytes \<Rightarrow> (string \<times> bytes) option" where
  "dec_str bs =
     (case dec_nat bs of
        None \<Rightarrow> None
      | Some (n, rest) \<Rightarrow> if length rest < n then None else Some (take n rest, drop n rest))"

subsection \<open>Payloads\<close>

text \<open>Modelled from the spec: a structured payload is a JSON value, written as a tag
  followed by its parts; lists and dicts carry their number of entries.\<close>

fun enc_json :: "json \<Rightarrow> bytes" where
  "enc_json JNull = ''n''"
| "enc_json (JBool b) = (if b then ''t'' else ''f'')"
| "enc_json (JNum i) = (if i < 0 then CHR ''-'' # enc_nat (nat (- i)) else CHR ''+'' # enc_nat (nat i))"
| "enc_json (JStr s) = CHR ''s'' # enc_str s"
| "enc_json (JArr xs) = CHR ''a'' # enc_nat (length xs) @ concat (map enc_json xs)"
| "enc_json (JObj kvs) =
     CHR ''o'' # enc_nat (length kvs) @ concat (map (\<lambda>(k, v). enc_str k @ enc_json v) kvs)"

text \<open>Modelled from the spec: the reader of a payload. The fuel bounds the nesting; the
  number of bytes read is always enough.\<close>

fun dec_json :: "nat \<Rightarrow> bytes \<Rightarrow> (json \<times> bytes) option"
  and dec_items :: "nat \<Rightarrow> nat \<Rightarrow> bytes \<Rightarrow> (json list \<times> bytes) option"
  and dec_fields :: "nat \<Rightarrow> nat \<Rightarrow> bytes \<Rightarrow> ((string \<times> json) list \<times> bytes) option" where
  "dec_json 0 bs = None"
| "dec_json (Suc fuel) [] = None"
| "dec_json (Suc fuel) (c # cs) =
     (if c = CHR ''n'' then Some (JNull, cs)
      else if c = CHR ''t'' then Some (JBool True, cs)
      else if c = CHR ''f'' then Some (JBool False, cs)
      else if c = CHR ''-'' then
        (case dec_nat cs of None \<Rightarrow> None | Some (n, rest) \<Rightarrow> Some (JNum (- int n), rest))
      else if c = CHR ''+'' then
        (case dec_nat cs of None \<Rightarrow> None | Some (n, rest) \<Rightarrow> Some (JNum (int n), rest))
      else if c = CHR ''s'' then
        (case dec_str cs of None \<Rightarrow> None | Some (s, rest) \<Rightarrow> Some (JStr s, rest))
      else if c = CHR ''a'' then
        (case dec_nat cs of
           None \<Rightarrow> None
         | Some (n, rest) \<Rightarrow>
             (case dec_items fuel n rest of None \<Rightarrow> None | Some (xs, rest') \<Rightarrow> Some (JArr xs, rest')))
      else if c = CHR ''o'' then
        (case dec_nat cs of
           None \<Rightarrow> None
         | Some (n, rest) \<Rightarrow>
             (case dec_fields fuel n rest of None \<Rightarrow> None | Some (kvs, rest') \<Rightarrow> Some (JObj kvs, rest')))
      else None)"
| "dec_items fuel 0 bs = Some ([], bs)"
| "dec_items fuel (Suc n) bs =
     (case dec_json fuel bs of
        None \<Rightarrow> None
      | Some (x, rest) \<Rightarrow>
          (case dec_items fuel n rest of None \<Rightarrow> None | Some (xs, rest') \<Rightarrow> Some (x # xs, rest')))"
| "dec_fields fuel 0 bs = Some ([], bs)"
| "dec_fields fuel (Suc n) bs =
     (case dec_str bs of
        None \<Rightarrow> None
      | Some (k, rest) \<Rightarrow>
          (case dec_json fuel rest of
             None \<Rightarrow> None
           | Some (v, rest') \<Rightarrow>
               (case dec_fields fuel n rest' of
                  None \<Rightarrow> None
                | Some (kvs, rest'') \<Rightarrow> Some ((k, v) # kvs, rest''))))"


text \<open>The fuel a payload needs.\<close>

fun weight :: "json \<Rightarrow> nat" where
  "weight (JArr xs) = Suc (sum_list (map weight xs))"
| "weight (JObj kvs) = Suc (sum_list (map (\<lambda>(k, v). weight v) kvs))"
| "weight _ = 1"

subsection \<open>Messages and frames\<close>

text \<open>Modelled from the spec: a \<^verbatim>\<open>ChannelMessage\<close> is a correlation id and an event;
  the event is a closed tagged union, of which the spec names "prediction output" (with
  a structured payload) and "prediction log".\<close>

datatype event_payload = PredictionOutput json | PredictionLog string

type_synonym channel_message = "string \<times> event_payload"

text \<open>Modelled from the spec: the canonical encoding of a message, and its inverse.\<close>

definition encode :: "channel_message \<Rightarrow> bytes" where
  "encode m =
     (case m of
        (correlation_id, PredictionOutput payload) \<Rightarrow> enc_str correlation_id @ CHR ''O'' # enc_json payload
      | (correlation_id, PredictionLog line) \<Rightarrow> enc_str correlation_id @ CHR ''L'' # enc_str line)"

definition decode :: "bytes \<Rightarrow> channel_message option" where
  "decode bs =
     (case dec_str bs of
        None \<Rightarrow> None
      | Some (correlation_id, []) \<Rightarrow> None
      | Some (correlation_id, c # cs) \<Rightarrow>
          if c = CHR ''O'' then
            (case dec_json (length cs) cs of
               Some (payload, []) \<Rightarrow> Some (correlation_id, PredictionOutput payload)
             | _ \<Rightarrow> None)
          else if c = CHR ''L'' then
            (case dec_str cs of
               Some (line, []) \<Rightarrow> Some (correlation_id, PredictionLog line)
             | _ \<Rightarrow> None)
          else None)"

text \<open>Modelled from the spec: the framing. Reading a frame from the bytes that have arrived
  gives the message and the bytes behind it, or finds the frame incomplete.\<close>

definition frame :: "bytes \<Rightarrow> bytes" where
  "frame body = enc_nat (length body) @ body"

datatype reading = Message channel_message bytes | Incomplete | Corrupt

definition read_frame :: "bytes \<Rightarrow> reading" where
  "read_frame buf =
     (case dec_nat buf of
        None \<Rightarrow> Incomplete
      | Some (n, rest) \<Rightarrow>
          if length rest < n then Incomplete
          else (case decode (take n rest) of
                  None \<Rightarrow> Corrupt
                | Some m \<Rightarrow> Message m (drop n rest)))"

subsection \<open>The two call conventions\<close>

text \<open>Modelled from the spec: the blocking convention. \<^verbatim>\<open>send\<close> hands the frame to
  the transport; \<^verbatim>\<open>recv\<close> reads one frame (and blocks while it is
  \<open>Incomplete\<close>).\<close>

definition send :: "channel_message \<Rightarrow> bytes \<Rightarrow> bytes" where
  "send m buf = buf @ frame (encode m)"

definition recv :: "bytes \<Rightarrow> reading" where
  "recv buf = read_frame buf"

text \<open>Modelled from the spec: the suspension-based convention. \<^verbatim>\<open>send\<close> hands the
  same frame to the transport. \<^verbatim>\<open>recv\<close> reads what has arrived; while the frame
  is incomplete it suspends, and it is resumed when the transport reports the next chunk
  readable. The chunks are the input: \<open>Suspended\<close> says that the reader still waits
  after the last of them.\<close>

definition async_send :: "channel_message \<Rightarrow> bytes \<Rightarrow> bytes" where
  "async_send m buf = buf @ frame (encode m)"

datatype async_result = Done channel_message bytes "bytes list" | Suspended bytes | Failed

fun async_recv :: "bytes list \<Rightarrow> bytes \<Rightarrow> async_result" where
  "async_recv [] buf =
     (case read_frame buf of
        Message m rest \<Rightarrow> Done m rest []
      | Incomplete \<Rightarrow> Suspended buf
      | Corrupt \<Rightarrow> Failed)"
| "async_recv (chunk # chunks) buf =
     (case read_frame buf of
        Message m rest \<Rightarrow> Done m rest (chunk # chunks)
      | Incomplete \<Rightarrow> async_recv chunks (buf @ chunk)
      | Corrupt \<Rightarrow> Failed)"

text \<open>The item of \<^verbatim>\<open>test_async_connection_rt\<close>.\<close>

definition test_item :: channel_message where
  "test_item = (''asdf'', PredictionOutput (JObj [(''x'', JNum 3)]))"

section \<open>Properties\<close>

subsection \<open>How one call of the handler can end\<close>

lemma drain_pipe_empties: "snd (drain_pipe ms) = []"
  by (induction ms) (auto split: prod.splits)

lemma subscript_Inr_dict: "subscript j k = Inr v \<Longrightarrow> \<exists>kvs. j = JObj kvs \<and> map_of kvs k = Some v"
  by (cases j) (auto split: option.splits)

lemma dict_get_Inr_dict: "dict_get j k = Inr v \<Longrightarrow> \<exists>kvs. j = JObj kvs"
  by (cases j) auto

lemma handle_message_cases:
  assumes "handle_message loads self c w = (out, evs, w')"
  obtains
    (early) "w' = w" "set evs \<subseteq> insert RedisGet (insert Sleep (range RedisChecker))" "out \<noteq> Polling"
  | (refused) mid js kvs e where
      "get_answer c = GetOk mid js" "loads js = Some (JObj kvs)"
      "request_outcome (post_answer c) = Inl e" "out = Raised e"
      "evs = [RedisGet, RedisChecker (case map_of kvs ''cancel_key'' of None \<Rightarrow> JNull | Some v \<Rightarrow> v)]
             @ fst (drain_pipe (pipe_in w))
             @ [PipeSend (JObj kvs), EventClear,
                PostPrediction (cog_http_base self @ ''/predictions'')
                  (JObj (dict_items_set kvs ''webhook'' (JStr ''http://localhost:4900/webhook''))) (post_answer c)]"
      "w' = w\<lparr>pipe_in := [], pipe_out := pipe_out w @ [JObj kvs], prediction_event := False\<rparr>"
  | (waited) mid js kvs pid x waited where
      "get_answer c = GetOk mid js" "loads js = Some (JObj kvs)" "map_of kvs ''id'' = Some pid"
      "request_outcome (post_answer c) = Inr ()"
      "wait_loop self pid (polls c)
         (w\<lparr>pipe_in := [], pipe_out := pipe_out w @ [JObj kvs], prediction_event := False\<rparr>) = (x, waited, w')"
      "evs = [RedisGet, RedisChecker (case map_of kvs ''cancel_key'' of None \<Rightarrow> JNull | Some v \<Rightarrow> v)]
             @ fst (drain_pipe (pipe_in w))
             @ [PipeSend (JObj kvs), EventClear,
                PostPrediction (cog_http_base self @ ''/predictions'')
                  (JObj (dict_items_set kvs ''webhook'' (JStr ''http://localhost:4900/webhook''))) (post_answer c)]
             @ waited @ (if x = Break then [RedisAck mid] else [])"
      "out = (case x of Break \<Rightarrow> Returned | Return \<Rightarrow> Returned | Raise e \<Rightarrow> Raised e | Exhausted \<Rightarrow> Polling)"
proof (cases "get_answer c")
  case (GetRaises e)
  with assms have "w' = w" "set evs \<subseteq> insert RedisGet (insert Sleep (range RedisChecker))" "out \<noteq> Polling"
    by (auto simp: handle_message_def split: if_splits)
  then show ?thesis by (rule early)
next
  case (GetOk mid js)
  show ?thesis
  proof (cases "loads js")
    case None
    with assms GetOk have "w' = w" "set evs \<subseteq> insert RedisGet (insert Sleep (range RedisChecker))" "out \<noteq> Polling"
      by (auto simp: handle_message_def)
    then show ?thesis by (rule early)
  next
    case (Some message)
    show ?thesis
    proof (cases message)
      case (JObj kvs)
      show ?thesis
      proof (cases "map_of kvs ''id''")
        case None
        with assms GetOk Some JObj
        have "w' = w" "set evs \<subseteq> insert RedisGet (insert Sleep (range RedisChecker))" "out \<noteq> Polling"
          by (auto simp: handle_message_def)
        then show ?thesis by (rule early)
      next
        case pid: (Some pid)
        obtain drained unread where d: "drain_pipe (pipe_in w) = (drained, unread)"
          by (cases "drain_pipe (pipe_in w)") auto
        have u: "unread = []" using drain_pipe_empties[of "pipe_in w"] d by simp
        show ?thesis
        proof (cases "request_outcome (post_answer c)")
          case (Inl e)
          with assms GetOk Some JObj pid d u show ?thesis
            by (intro refused[of mid js kvs e]) (auto simp: handle_message_def Let_def)
        next
          case (Inr un)
          obtain x waited w3 where wl: "wait_loop self pid (polls c)
             (w\<lparr>pipe_in := [], pipe_out := pipe_out w @ [JObj kvs], prediction_event := False\<rparr>) = (x, waited, w3)"
            by (metis prod_cases3)
          with assms GetOk Some JObj pid d u Inr show ?thesis
            by (intro waited[of mid js kvs pid x waited]) (auto simp: handle_message_def Let_def split: loop_exit.splits)
        qed
      qed
    qed (use assms GetOk Some in \<open>auto simp: handle_message_def intro!: early\<close>)
  qed
qed

lemma drain_pipe_events: "e \<in> set (fst (drain_pipe ms)) \<Longrightarrow> (\<exists>b. e = PipePoll b) \<or> (\<exists>m. e = PipeRecv m)"
  by (induction ms arbitrary: e) (auto split: prod.splits)

lemma drain_pipe_dispatching: "\<forall>e \<in> set (fst (drain_pipe ms)). dispatching e"
  using drain_pipe_events by fastforce

lemma cancel_prediction_cases:
  "cancel_prediction self pid a = (r, cev) \<Longrightarrow>
     (cev = [] \<and> r = Inl TypeError) \<or> (\<exists>u. cev = [PostCancel u a] \<and> r = request_outcome a)"
  by (auto simp: cancel_prediction_def Let_def split: json.splits)

lemma wait_loop_Cons:
  "wait_loop self pid (p # ps) w =
     (if wait_result p then (Break, [EventWait True], w\<lparr>prediction_event := True\<rparr>)
      else case (if should_cancel p then cancel_prediction self pid (cancel_result p) else (Inr (), [])) of
        (Inl e, cev) \<Rightarrow>
          (Raise e, [EventWait False, ShouldCancel (should_cancel p)] @ cev, w\<lparr>prediction_event := False\<rparr>)
      | (Inr u, cev) \<Rightarrow>
          if shutdown_set p
          then (Return, [EventWait False, ShouldCancel (should_cancel p)] @ cev @ [ShutdownIsSet True],
                w\<lparr>prediction_event := False\<rparr>)
          else (case wait_loop self pid ps (w\<lparr>prediction_event := False\<rparr>) of
                  (x, later, w2) \<Rightarrow>
                    (x, [EventWait False, ShouldCancel (should_cancel p)] @ cev @ [ShutdownIsSet False] @ later, w2)))"
  by (simp add: Let_def split: prod.splits sum.splits)

text \<open>Every run of the wait loop is a sequence of calm events followed by the event that
  ended it.\<close>

lemma wait_loop_shape:
  assumes "wait_loop self pid ps w = (x, evs, w')"
  shows "\<exists>pre l. evs = pre @ l \<and> (\<forall>e \<in> set pre. calm e) \<and>
           (case x of
              Break \<Rightarrow> l = [EventWait True]
            | Return \<Rightarrow> l = [ShutdownIsSet True]
            | Raise e \<Rightarrow> (l = [] \<and> e = TypeError) \<or> (\<exists>u a. l = [PostCancel u a] \<and> request_outcome a = Inl e)
            | Exhausted \<Rightarrow> l = [])"
  using assms
proof (induction ps arbitrary: w x evs w')
  case Nil
  then show ?case by auto
next
  case (Cons p ps)
  show ?case
  proof (cases "wait_result p")
    case True
    with Cons.prems have "x = Break" "evs = [] @ [EventWait True]" by auto
    then show ?thesis by (intro exI[of _ "[]"] exI[of _ "[EventWait True]"]) simp
  next
    case False
    obtain r cev where c:
      "(if should_cancel p then cancel_prediction self pid (cancel_result p) else (Inr (), [])) = (r, cev)"
      by (metis surj_pair)
    then have cev: "(cev = [] \<and> (r = Inl TypeError \<or> r = Inr ())) \<or> (\<exists>u a. cev = [PostCancel u a] \<and> r = request_outcome a)"
      using cancel_prediction_cases[of self pid "cancel_result p" r cev] by (auto split: if_splits)
    let ?head = "[EventWait False, ShouldCancel (should_cancel p)]"
    show ?thesis
    proof (cases r)
      case (Inl e)
      with Cons.prems False c have x: "x = Raise e" and evs: "evs = ?head @ cev"
        by (simp_all add: wait_loop_Cons)
      from cev Inl show ?thesis unfolding x evs
        by (intro exI[of _ ?head] exI[of _ cev]) auto
    next
      case (Inr u)
      have calm_cev: "\<forall>e \<in> set cev. calm e" using cev Inr by auto
      show ?thesis
      proof (cases "shutdown_set p")
        case True
        with Cons.prems False c Inr have x: "x = Return" and evs: "evs = (?head @ cev) @ [ShutdownIsSet True]"
          by (simp_all add: wait_loop_Cons)
        from calm_cev show ?thesis unfolding x evs
          by (intro exI[of _ "?head @ cev"] exI[of _ "[ShutdownIsSet True]"]) auto
      next
        case sd: False
        obtain x2 later w2 where rec: "wait_loop self pid ps (w\<lparr>prediction_event := False\<rparr>) = (x2, later, w2)"
          by (metis prod_cases3)
        with Cons.prems False c Inr sd have x: "x = x2" and evs: "evs = (?head @ cev @ [ShutdownIsSet False]) @ later"
          by (simp_all add: wait_loop_Cons)
        from Cons.IH[OF rec] obtain pre l where l: "later = pre @ l" "\<forall>e \<in> set pre. calm e"
          "(case x2 of
              Break \<Rightarrow> l = [EventWait True]
            | Return \<Rightarrow> l = [ShutdownIsSet True]
            | Raise e \<Rightarrow> (l = [] \<and> e = TypeError) \<or> (\<exists>u a. l = [PostCancel u a] \<and> request_outcome a = Inl e)
            | Exhausted \<Rightarrow> l = [])" by blast
        from calm_cev l show ?thesis unfolding x evs
          by (intro exI[of _ "(?head @ cev @ [ShutdownIsSet False]) @ pre"] exI[of _ l]) auto
      qed
    qed
  qed
qed


lemma calm_facts:
  assumes "\<forall>e \<in> set pre. calm e"
  shows "EventWait True \<notin> set pre" "ShutdownIsSet True \<notin> set pre" "RedisAck m \<notin> set pre"
    "RedisGet \<notin> set pre" "PostPrediction u r a \<notin> set pre" "PipeSend j \<notin> set pre"
  using assms by fastforce+

lemma dispatching_facts:
  assumes "\<forall>e \<in> set pre. dispatching e"
  shows "EventWait b \<notin> set pre" "ShutdownIsSet b \<notin> set pre" "RedisAck m \<notin> set pre"
    "PostCancel u a \<notin> set pre" "ShouldCancel b \<notin> set pre"
  using assms by fastforce+

lemma sent_append: "sent (xs @ ys) = sent xs @ sent ys"
  by (induction xs rule: sent.induct) auto

lemma sent_none: "\<forall>m. PipeSend m \<notin> set es \<Longrightarrow> sent es = []"
  by (induction es rule: sent.induct) auto

lemma sent_drain: "sent (fst (drain_pipe ms)) = []"
  using drain_pipe_events by (intro sent_none) fastforce

lemma map_of_dict_items_set: "map_of (dict_items_set kvs k v) k = Some v"
  by (induction kvs) auto

lemma wait_loop_polling:
  assumes "wait_loop self pid ps w = (x, evs, w')" and "e \<in> set evs"
  shows "(\<exists>b. e = EventWait b) \<or> (\<exists>b. e = ShouldCancel b) \<or> (\<exists>u a. e = PostCancel u a) \<or>
         (\<exists>b. e = ShutdownIsSet b)"
proof -
  from wait_loop_shape[OF assms(1)] obtain pre l where l: "evs = pre @ l" "\<forall>e \<in> set pre. calm e"
    "(case x of
              Break \<Rightarrow> l = [EventWait True]
            | Return \<Rightarrow> l = [ShutdownIsSet True]
            | Raise e \<Rightarrow> (l = [] \<and> e = TypeError) \<or> (\<exists>u a. l = [PostCancel u a] \<and> request_outcome a = Inl e)
            | Exhausted \<Rightarrow> l = [])" by blast
  from assms(2) l(1) consider "e \<in> set pre" | "e \<in> set l" by auto
  then show ?thesis
  proof cases
    case 1
    with l(2) have "calm e" by simp
    then show ?thesis by (cases e) auto
  next
    case 2
    with l(3) show ?thesis by (cases x) auto
  qed
qed

lemma wait_loop_pipes:
  "wait_loop self pid ps w = (x, evs, w') \<Longrightarrow> pipe_in w' = pipe_in w \<and> pipe_out w' = pipe_out w"
proof (induction ps arbitrary: w x evs w')
  case Nil
  then show ?case by simp
next
  case (Cons p ps)
  obtain x2 later w2 where rec: "wait_loop self pid ps (w\<lparr>prediction_event := False\<rparr>) = (x2, later, w2)"
    by (metis prod_cases3)
  from Cons.IH[OF rec] Cons.prems[unfolded wait_loop_Cons] rec show ?case
    by (auto simp del: wait_loop.simps split: if_splits prod.splits sum.splits)
qed

lemma wait_loop_event_state:
  "wait_loop self pid ps w = (x, evs, w') \<Longrightarrow> x \<noteq> Break \<Longrightarrow> ps \<noteq> [] \<or> \<not> prediction_event w \<Longrightarrow>
     \<not> prediction_event w'"
proof (induction ps arbitrary: w x evs w')
  case Nil
  then show ?case by simp
next
  case (Cons p ps)
  obtain x2 later w2 where rec: "wait_loop self pid ps (w\<lparr>prediction_event := False\<rparr>) = (x2, later, w2)"
    by (metis prod_cases3)
  from Cons.IH[OF rec] Cons.prems[unfolded wait_loop_Cons] rec show ?case
    by (auto simp del: wait_loop.simps split: if_splits prod.splits sum.splits)
qed

lemmas example_defs =
  example_cycle_def example_loads_def example_message_def init_def empty_world_def completes_def
  quiet_def request_outcome_def raise_for_status_def status_forcelist_def cancel_prediction_def
  refused_cycle_def not_modified_cycle_def
  caller_message_def caller_cycle_def cancel_refused_def cancel_unreachable_def cancelled_cycle_def
  unreachable_cycle_def

subsection \<open>Acknowledgment\<close>

text \<open>
  Claim C1. In every call of \<^verbatim>\<open>handle_message\<close> the message is acknowledged if and
  only if a call of \<^verbatim>\<open>prediction_event.wait(POLL_INTERVAL)\<close> returned
  \<^verbatim>\<open>True\<close>. Then the acknowledgment is the last event of the call and directly
  follows that wait; it is the acknowledgment of the message the call dequeued; no
  earlier wait had returned \<^verbatim>\<open>True\<close>, no check of the shutdown event had found it
  set, nothing had been acknowledged, and the prediction had been submitted. Submitting
  alone never acknowledges.
\<close>

theorem acknowledge_iff_completion_observed:
  assumes "handle_message loads self c w = (out, evs, w')"
  shows "((\<exists>m. RedisAck m \<in> set evs) \<longleftrightarrow> EventWait True \<in> set evs) \<and>
         (EventWait True \<in> set evs \<longrightarrow>
            (\<exists>before m js. evs = before @ [EventWait True, RedisAck m] \<and> get_answer c = GetOk m js \<and>
               EventWait True \<notin> set before \<and> ShutdownIsSet True \<notin> set before \<and>
               (\<forall>m'. RedisAck m' \<notin> set before) \<and>
               (\<exists>u r. PostPrediction u r (post_answer c) \<in> set before)))"
  using assms
proof (cases rule: handle_message_cases)
  case early
  then show ?thesis by auto
next
  case (refused mid js kvs e)
  have "\<forall>e \<in> set evs. dispatching e"
    unfolding refused(5) using drain_pipe_dispatching[of "pipe_in w"] by auto
  from dispatching_facts[OF this] show ?thesis by blast
next
  case (waited mid js kvs pid x waited)
  define posted where "posted = [RedisGet, RedisChecker (case map_of kvs ''cancel_key'' of None \<Rightarrow> JNull | Some v \<Rightarrow> v)]
             @ fst (drain_pipe (pipe_in w))
             @ [PipeSend (JObj kvs), EventClear,
                PostPrediction (cog_http_base self @ ''/predictions'')
                  (JObj (dict_items_set kvs ''webhook'' (JStr ''http://localhost:4900/webhook''))) (post_answer c)]"
  have evs: "evs = posted @ waited @ (if x = Break then [RedisAck mid] else [])"
    unfolding posted_def using waited(6) by simp
  have d: "\<forall>e \<in> set posted. dispatching e"
    unfolding posted_def using drain_pipe_dispatching[of "pipe_in w"] by auto
  have post: "PostPrediction (cog_http_base self @ ''/predictions'')
                  (JObj (dict_items_set kvs ''webhook'' (JStr ''http://localhost:4900/webhook''))) (post_answer c) \<in> set posted"
    unfolding posted_def by simp
  from wait_loop_shape[OF waited(5)] obtain pre l where l: "waited = pre @ l" "\<forall>e \<in> set pre. calm e"
    "(case x of
              Break \<Rightarrow> l = [EventWait True]
            | Return \<Rightarrow> l = [ShutdownIsSet True]
            | Raise e \<Rightarrow> (l = [] \<and> e = TypeError) \<or> (\<exists>u a. l = [PostCancel u a] \<and> request_outcome a = Inl e)
            | Exhausted \<Rightarrow> l = [])" by blast
  note df = dispatching_facts[OF d] and cf = calm_facts[OF l(2)]
  show ?thesis
  proof (cases "x = Break")
    case True
    with l have evs': "evs = (posted @ pre) @ [EventWait True, RedisAck mid]"
      unfolding evs by simp
    have "EventWait True \<notin> set (posted @ pre)" "ShutdownIsSet True \<notin> set (posted @ pre)"
      "\<forall>m'. RedisAck m' \<notin> set (posted @ pre)"
      using df cf by auto
    moreover have "PostPrediction (cog_http_base self @ ''/predictions'')
                  (JObj (dict_items_set kvs ''webhook'' (JStr ''http://localhost:4900/webhook''))) (post_answer c) \<in> set (posted @ pre)"
      using post by simp
    ultimately have "\<exists>before m js. evs = before @ [EventWait True, RedisAck m] \<and> get_answer c = GetOk m js \<and>
               EventWait True \<notin> set before \<and> ShutdownIsSet True \<notin> set before \<and>
               (\<forall>m'. RedisAck m' \<notin> set before) \<and>
               (\<exists>u r. PostPrediction u r (post_answer c) \<in> set before)"
      using evs' waited(1) by (intro exI[of _ "posted @ pre"] exI[of _ mid] exI[of _ js]) blast
    moreover have "RedisAck mid \<in> set evs" "EventWait True \<in> set evs" unfolding evs' by simp_all
    ultimately show ?thesis by blast
  next
    case False
    then have "evs = posted @ pre @ l" "EventWait True \<notin> set l" "\<forall>m. RedisAck m \<notin> set l"
      using l evs by (auto split: loop_exit.splits)
    then show ?thesis using df cf by auto
  qed
qed


theorem acknowledge_iff_completion_observed_witness:
  "handle_message example_loads (init 0) example_cycle empty_world =
     (Returned,
      [RedisGet, RedisChecker (JStr ''c1''), PipePoll False, PipeSend example_message, EventClear,
       PostPrediction ''http://localhost:5000/predictions''
         (JObj [(''id'', JStr ''p1''), (''cancel_key'', JStr ''c1''), (''input'', JObj [(''x'', JNum 3)]),
                (''webhook'', JStr ''http://localhost:4900/webhook'')])
         (Response 202),
       EventWait False, ShouldCancel False, ShutdownIsSet False,
       EventWait False, ShouldCancel False, ShutdownIsSet False,
       EventWait True, RedisAck ''1-0''],
      \<lparr>pipe_in = [], pipe_out = [example_message], prediction_event = True\<rparr>) \<and>
   (\<exists>before m js.
      [RedisGet, RedisChecker (JStr ''c1''), PipePoll False, PipeSend example_message, EventClear,
       PostPrediction ''http://localhost:5000/predictions''
         (JObj [(''id'', JStr ''p1''), (''cancel_key'', JStr ''c1''), (''input'', JObj [(''x'', JNum 3)]),
                (''webhook'', JStr ''http://localhost:4900/webhook'')])
         (Response 202),
       EventWait False, ShouldCancel False, ShutdownIsSet False,
       EventWait False, ShouldCancel False, ShutdownIsSet False,
       EventWait True, RedisAck ''1-0''] = before @ [EventWait True, RedisAck m] \<and>
      get_answer example_cycle = GetOk m js \<and> ShutdownIsSet True \<notin> set before)"
proof -
  let ?evs = "[RedisGet, RedisChecker (JStr ''c1''), PipePoll False, PipeSend example_message, EventClear,
       PostPrediction ''http://localhost:5000/predictions''
         (JObj [(''id'', JStr ''p1''), (''cancel_key'', JStr ''c1''), (''input'', JObj [(''x'', JNum 3)]),
                (''webhook'', JStr ''http://localhost:4900/webhook'')])
         (Response 202),
       EventWait False, ShouldCancel False, ShutdownIsSet False,
       EventWait False, ShouldCancel False, ShutdownIsSet False,
       EventWait True, RedisAck ''1-0'']"
  have run: "handle_message example_loads (init 0) example_cycle empty_world =
     (Returned, ?evs, \<lparr>pipe_in = [], pipe_out = [example_message], prediction_event = True\<rparr>)"
    by (simp add: handle_message_def example_defs)
  have seen: "EventWait True \<in> set ?evs" by simp
  from acknowledge_iff_completion_observed[OF run] seen run show ?thesis by blast
qed

subsection \<open>A submission that fails\<close>

text \<open>
  Claim C10, as the code has it. A status code that is not 2xx is not always a failure
  for the code: \<^verbatim>\<open>raise_for_status\<close> raises for 4xx and 5xx only. Here the model
  container answers the submission with 304; the call goes on to wait for the job and
  acknowledges it.
\<close>

theorem submission_not_modified_counterexample:
  "handle_message example_loads (init 0) not_modified_cycle empty_world =
     (Returned,
      [RedisGet, RedisChecker (JStr ''c1''), PipePoll False, PipeSend example_message, EventClear,
       PostPrediction ''http://localhost:5000/predictions''
         (JObj [(''id'', JStr ''p1''), (''cancel_key'', JStr ''c1''), (''input'', JObj [(''x'', JNum 3)]),
                (''webhook'', JStr ''http://localhost:4900/webhook'')])
         (Response 304),
       EventWait False, ShouldCancel False, ShutdownIsSet False,
       EventWait False, ShouldCancel False, ShutdownIsSet False,
       EventWait True, RedisAck ''1-0''],
      \<lparr>pipe_in = [], pipe_out = [example_message], prediction_event = True\<rparr>) \<and>
   post_answer not_modified_cycle = Response 304 \<and>
   request_outcome (Response 304) = Inr () \<and>
   \<not> (200 \<le> (304::nat) \<and> (304::nat) < 300)"
  by (simp add: handle_message_def example_defs)

text \<open>
  Claim C10, amended. When the submission of the job fails for the code (the request
  raises, which it also does when the retries end on a status code of the retry list,
  or \<^verbatim>\<open>raise_for_status\<close> rejects the status code, which it does for 4xx and 5xx),
  \<^verbatim>\<open>handle_message\<close> raises that failure and nothing done before is undone: the
  message has been written to the pipe, where it stays pending for the sibling, and the
  prediction event has been cleared. The submission is the last event of the call: the job
  is neither waited for nor acknowledged.
\<close>

theorem failed_submission_is_not_rolled_back:
  assumes "handle_message loads self c w = (out, evs, w')"
    and "PostPrediction u r a \<in> set evs"
    and "request_outcome a = Inl e"
  shows "\<exists>mid js message before.
           get_answer c = GetOk mid js \<and> loads js = Some message \<and> a = post_answer c \<and>
           out = Raised e \<and>
           evs = before @ [PipeSend message, EventClear, PostPrediction u r a] \<and>
           pipe_out w' = pipe_out w @ [message] \<and> \<not> prediction_event w' \<and>
           (\<forall>m. RedisAck m \<notin> set evs) \<and> (\<forall>b. EventWait b \<notin> set evs)"
  using assms(1)
proof (cases rule: handle_message_cases)
  case early
  with assms(2) show ?thesis by auto
next
  case (refused mid js kvs e')
  let ?before = "[RedisGet, RedisChecker (case map_of kvs ''cancel_key'' of None \<Rightarrow> JNull | Some v \<Rightarrow> v)]
             @ fst (drain_pipe (pipe_in w))"
  have d: "\<forall>e \<in> set evs. dispatching e"
    unfolding refused(5) using drain_pipe_dispatching[of "pipe_in w"] by auto
  have "PostPrediction u r a \<notin> set ?before" using drain_pipe_events[of _ "pipe_in w"] by auto
  with assms(2) have ura: "u = cog_http_base self @ ''/predictions''"
    "r = JObj (dict_items_set kvs ''webhook'' (JStr ''http://localhost:4900/webhook''))" "a = post_answer c"
    unfolding refused(5) by auto
  with assms(3) refused(3) have e: "e' = e" by simp
  have "evs = ?before @ [PipeSend (JObj kvs), EventClear, PostPrediction u r a]"
    unfolding refused(5) ura by simp
  with refused ura e dispatching_facts[OF d] show ?thesis
    by (intro exI[of _ mid] exI[of _ js] exI[of _ "JObj kvs"] exI[of _ ?before]) simp
next
  case (waited mid js kvs pid x waited)
  have "PostPrediction u r a \<notin> set (fst (drain_pipe (pipe_in w)))"
    using drain_pipe_events[of _ "pipe_in w"] by auto
  moreover have "PostPrediction u r a \<notin> set waited"
    using wait_loop_polling[OF waited(5)] by blast
  ultimately have "a = post_answer c" using assms(2) unfolding waited(6) by (auto split: if_splits)
  with assms(3) waited(4) show ?thesis by simp
qed


theorem failed_submission_is_not_rolled_back_witness:
  "handle_message example_loads (init 0) refused_cycle empty_world =
     (Raised (HTTPError 422),
      [RedisGet, RedisChecker (JStr ''c1''), PipePoll False, PipeSend example_message, EventClear,
       PostPrediction ''http://localhost:5000/predictions''
         (JObj [(''id'', JStr ''p1''), (''cancel_key'', JStr ''c1''), (''input'', JObj [(''x'', JNum 3)]),
                (''webhook'', JStr ''http://localhost:4900/webhook'')])
         (Response 422)],
      \<lparr>pipe_in = [], pipe_out = [example_message], prediction_event = False\<rparr>) \<and>
   request_outcome (Response 422) = Inl (HTTPError 422) \<and>
   (\<exists>mid js message. get_answer refused_cycle = GetOk mid js \<and> example_loads js = Some message \<and>
      pipe_out \<lparr>pipe_in = [], pipe_out = [example_message], prediction_event = False\<rparr> =
        pipe_out empty_world @ [message])"
proof -
  let ?request = "JObj [(''id'', JStr ''p1''), (''cancel_key'', JStr ''c1''), (''input'', JObj [(''x'', JNum 3)]),
                (''webhook'', JStr ''http://localhost:4900/webhook'')]"
  let ?evs = "[RedisGet, RedisChecker (JStr ''c1''), PipePoll False, PipeSend example_message, EventClear,
       PostPrediction ''http://localhost:5000/predictions'' ?request (Response 422)]"
  have run: "handle_message example_loads (init 0) refused_cycle empty_world =
     (Raised (HTTPError 422), ?evs, \<lparr>pipe_in = [], pipe_out = [example_message], prediction_event = False\<rparr>)"
    by (simp add: handle_message_def example_defs)
  have posted: "PostPrediction ''http://localhost:5000/predictions'' ?request (Response 422) \<in> set ?evs"
    by simp
  have failed: "request_outcome (Response 422) = Inl (HTTPError 422)"
    by (simp add: request_outcome_def raise_for_status_def status_forcelist_def)
  from failed_submission_is_not_rolled_back[OF run posted failed] run failed show ?thesis by blast
qed

subsection \<open>What the sibling is sent\<close>

text \<open>
  Claim C3, as the code has it. The message is written to the pipe before the webhook is
  overridden, and \<^verbatim>\<open>send\<close> pickles its argument when it is called: the sibling is
  sent the request as it was dequeued (the comment in the source says so: "Send the
  original request to the webserver, so it can trust the fields"). Here a message that
  brings a webhook of its caller reaches the pipe with that webhook, not with the
  worker's address.
\<close>

theorem pipe_descriptor_webhook_counterexample:
  "handle_message example_loads (init 0) caller_cycle empty_world =
     (Returned,
      [RedisGet, RedisChecker (JStr ''c2''), PipePoll False, PipeSend caller_message, EventClear,
       PostPrediction ''http://localhost:5000/predictions''
         (JObj [(''id'', JStr ''p2''), (''cancel_key'', JStr ''c2''),
                (''webhook'', JStr ''http://localhost:4900/webhook''), (''input'', JObj [(''x'', JNum 4)])])
         (Response 202),
       EventWait True, RedisAck ''2-0''],
      \<lparr>pipe_in = [], pipe_out = [caller_message], prediction_event = True\<rparr>) \<and>
   subscript caller_message ''webhook'' = Inr (JStr ''https://caller.example/hook'') \<and>
   subscript caller_message ''webhook'' \<noteq> Inr (JStr ''http://localhost:4900/webhook'')"
  by (simp add: handle_message_def example_defs)

text \<open>
  Claim C3, amended. In every call of \<^verbatim>\<open>handle_message\<close> that submits a prediction,
  exactly one message is written to the pipe, and it is the dequeued message as
  \<^verbatim>\<open>json.loads\<close> returned it; it is added behind what the sibling has not read yet.
  The request submitted to the model container is that message with its
  \<^verbatim>\<open>webhook\<close> field set to the worker's own address.
\<close>

theorem pipe_receives_the_message_as_dequeued:
  assumes "handle_message loads self c w = (out, evs, w')"
    and "PostPrediction u r a \<in> set evs"
  shows "\<exists>mid js message.
           get_answer c = GetOk mid js \<and> loads js = Some message \<and>
           sent evs = [message] \<and> pipe_out w' = pipe_out w @ [message] \<and>
           setitem message ''webhook'' (JStr ''http://localhost:4900/webhook'') = Inr r \<and>
           subscript r ''webhook'' = Inr (JStr ''http://localhost:4900/webhook'')"
  using assms(1)
proof (cases rule: handle_message_cases)
  case early
  with assms(2) show ?thesis by auto
next
  case (refused mid js kvs e)
  let ?before = "[RedisGet, RedisChecker (case map_of kvs ''cancel_key'' of None \<Rightarrow> JNull | Some v \<Rightarrow> v)]
             @ fst (drain_pipe (pipe_in w))"
  have "PostPrediction u r a \<notin> set ?before" using drain_pipe_events[of _ "pipe_in w"] by auto
  with assms(2) have r: "r = JObj (dict_items_set kvs ''webhook'' (JStr ''http://localhost:4900/webhook''))"
    unfolding refused(5) by auto
  have "sent evs = [JObj kvs]" unfolding refused(5) by (simp add: sent_append sent_drain)
  with refused r show ?thesis
    by (intro exI[of _ mid] exI[of _ js] exI[of _ "JObj kvs"]) (simp add: map_of_dict_items_set)
next
  case (waited mid js kvs pid x waited)
  let ?before = "[RedisGet, RedisChecker (case map_of kvs ''cancel_key'' of None \<Rightarrow> JNull | Some v \<Rightarrow> v)]
             @ fst (drain_pipe (pipe_in w))"
  have "PostPrediction u r a \<notin> set ?before" using drain_pipe_events[of _ "pipe_in w"] by auto
  moreover have nw: "PostPrediction u r a \<notin> set waited"
    using wait_loop_polling[OF waited(5)] by blast
  ultimately have r: "r = JObj (dict_items_set kvs ''webhook'' (JStr ''http://localhost:4900/webhook''))"
    using assms(2) unfolding waited(6) by (auto split: if_splits)
  have "\<forall>m. PipeSend m \<notin> set waited" using wait_loop_polling[OF waited(5)] by blast
  then have "sent waited = []" by (rule sent_none)
  then have "sent evs = [JObj kvs]" unfolding waited(6) by (simp add: sent_append sent_drain)
  moreover have "pipe_out w' = pipe_out w @ [JObj kvs]" using wait_loop_pipes[OF waited(5)] by simp
  ultimately show ?thesis using waited r
    by (intro exI[of _ mid] exI[of _ js] exI[of _ "JObj kvs"]) (simp add: map_of_dict_items_set)
qed

theorem pipe_receives_the_message_as_dequeued_witness:
  "PostPrediction ''http://localhost:5000/predictions''
         (JObj [(''id'', JStr ''p2''), (''cancel_key'', JStr ''c2''),
                (''webhook'', JStr ''http://localhost:4900/webhook''), (''input'', JObj [(''x'', JNum 4)])])
         (Response 202)
     \<in> set (fst (snd (handle_message example_loads (init 0) caller_cycle empty_world))) \<and>
   (\<exists>mid js message.
      get_answer caller_cycle = GetOk mid js \<and> example_loads js = Some message \<and>
      sent (fst (snd (handle_message example_loads (init 0) caller_cycle empty_world))) = [message] \<and>
      pipe_out (snd (snd (handle_message example_loads (init 0) caller_cycle empty_world))) =
        pipe_out empty_world @ [message])"
proof -
  obtain out evs w' where run: "handle_message example_loads (init 0) caller_cycle empty_world = (out, evs, w')"
    by (metis prod_cases3)
  have evs: "evs = [RedisGet, RedisChecker (JStr ''c2''), PipePoll False, PipeSend caller_message, EventClear,
       PostPrediction ''http://localhost:5000/predictions''
         (JObj [(''id'', JStr ''p2''), (''cancel_key'', JStr ''c2''),
                (''webhook'', JStr ''http://localhost:4900/webhook''), (''input'', JObj [(''x'', JNum 4)])])
         (Response 202),
       EventWait True, RedisAck ''2-0'']"
    using run by (simp add: handle_message_def example_defs)
  have posted: "PostPrediction ''http://localhost:5000/predictions''
         (JObj [(''id'', JStr ''p2''), (''cancel_key'', JStr ''c2''),
                (''webhook'', JStr ''http://localhost:4900/webhook''), (''input'', JObj [(''x'', JNum 4)])])
         (Response 202) \<in> set evs"
    unfolding evs by simp
  from pipe_receives_the_message_as_dequeued[OF run posted] posted show ?thesis
    unfolding run by auto
qed

subsection \<open>A cancellation that fails\<close>

lemma main_loop_raised:
  "\<not> shutdown_answer it \<Longrightarrow>
   handle_message loads self (answers it) (sibling_acts it w) = (Raised e, evs, w1) \<Longrightarrow>
   main_loop loads self (it # its) w =
     (case main_loop loads self its w1 of
        (x, later, w2) \<Rightarrow> (x, ShutdownIsSet False # evs @ [LogException e] @ later, w2))"
  by simp

text \<open>
  Claim C2, as the code has it. \<^verbatim>\<open>resp.raise_for_status()\<close> on the answer to the
  cancellation request raises inside the wait loop, and nothing in
  \<^verbatim>\<open>handle_message\<close> catches it: the loop is left. Here the model container answers
  the cancellation with 404 in the second pass; the third pass, in which the prediction
  would have been seen to complete, is never made (the run has two waits, not three).
\<close>

theorem failed_cancellation_counterexample:
  "handle_message example_loads (init 0) cancelled_cycle empty_world =
     (Raised (HTTPError 404),
      [RedisGet, RedisChecker (JStr ''c1''), PipePoll False, PipeSend example_message, EventClear,
       PostPrediction ''http://localhost:5000/predictions''
         (JObj [(''id'', JStr ''p1''), (''cancel_key'', JStr ''c1''), (''input'', JObj [(''x'', JNum 3)]),
                (''webhook'', JStr ''http://localhost:4900/webhook'')])
         (Response 202),
       EventWait False, ShouldCancel False, ShutdownIsSet False,
       EventWait False, ShouldCancel True,
       PostCancel ''http://localhost:5000/predictions/p1/cancel'' (Response 404)],
      \<lparr>pipe_in = [], pipe_out = [example_message], prediction_event = False\<rparr>) \<and>
   polls cancelled_cycle = [quiet, cancel_refused, completes] \<and>
   length (filter (\<lambda>e. e = EventWait False \<or> e = EventWait True)
             (fst (snd (handle_message example_loads (init 0) cancelled_cycle empty_world)))) = 2"
  by (simp add: handle_message_def example_defs)

text \<open>
  Claim C2, amended. When the cancellation request fails (it raises, or its status is
  4xx or 5xx), \<^verbatim>\<open>handle_message\<close> raises that failure. The request is the last event
  of the call: the job is not polled again and not acknowledged. The main loop logs the
  exception and goes on with its next pass.
\<close>

theorem failed_cancellation_ends_the_wait:
  assumes "\<not> shutdown_answer it"
    and "handle_message loads self (answers it) (sibling_acts it w) = (out, evs, w1)"
    and "PostCancel u a \<in> set evs"
    and "request_outcome a = Inl e"
  shows "out = Raised e \<and>
         (\<exists>before. evs = before @ [PostCancel u a] \<and> PostCancel u a \<notin> set before) \<and>
         (\<forall>m. RedisAck m \<notin> set evs) \<and>
         main_loop loads self (it # its) w =
           (case main_loop loads self its w1 of
              (x, later, w2) \<Rightarrow> (x, ShutdownIsSet False # evs @ [LogException e] @ later, w2))"
  using assms(2)
proof (cases rule: handle_message_cases)
  case early
  with assms(3) show ?thesis by auto
next
  case (refused mid js kvs e')
  have "\<forall>e \<in> set evs. dispatching e"
    unfolding refused(5) using drain_pipe_dispatching[of "pipe_in (sibling_acts it w)"] by auto
  from dispatching_facts(4)[OF this] assms(3) show ?thesis by blast
next
  case (waited mid js kvs pid x waited)
  define posted where "posted = [RedisGet, RedisChecker (case map_of kvs ''cancel_key'' of None \<Rightarrow> JNull | Some v \<Rightarrow> v)]
             @ fst (drain_pipe (pipe_in (sibling_acts it w)))
             @ [PipeSend (JObj kvs), EventClear,
                PostPrediction (cog_http_base self @ ''/predictions'')
                  (JObj (dict_items_set kvs ''webhook'' (JStr ''http://localhost:4900/webhook''))) (post_answer (answers it))]"
  have evs: "evs = posted @ waited @ (if x = Break then [RedisAck mid] else [])"
    unfolding posted_def using waited(6) by simp
  have d: "\<forall>e \<in> set posted. dispatching e"
    unfolding posted_def using drain_pipe_dispatching[of "pipe_in (sibling_acts it w)"] by auto
  note df = dispatching_facts[OF d]
  from wait_loop_shape[OF waited(5)] obtain pre l where l: "waited = pre @ l" "\<forall>e \<in> set pre. calm e"
    "(case x of
              Break \<Rightarrow> l = [EventWait True]
            | Return \<Rightarrow> l = [ShutdownIsSet True]
            | Raise e \<Rightarrow> (l = [] \<and> e = TypeError) \<or> (\<exists>u a. l = [PostCancel u a] \<and> request_outcome a = Inl e)
            | Exhausted \<Rightarrow> l = [])" by blast
  have notpre: "PostCancel u a \<notin> set pre"
  proof
    assume "PostCancel u a \<in> set pre"
    with l(2) have "calm (PostCancel u a)" by blast
    with assms(4) show False by simp
  qed
  with assms(3) df(4) have inl: "PostCancel u a \<in> set l"
    unfolding evs l(1) by (auto split: if_splits)
  with l(3) have x: "x = Raise e" and l': "l = [PostCancel u a]"
    using assms(4) by (auto split: loop_exit.splits)
  have evs': "evs = (posted @ pre) @ [PostCancel u a]" unfolding evs l(1) l' x by simp
  have out: "out = Raised e" using waited(7) x by simp
  have "PostCancel u a \<notin> set (posted @ pre)" using notpre df(4) by simp
  moreover have "\<forall>m. RedisAck m \<notin> set evs" unfolding evs' using df(3) calm_facts(3)[OF l(2)] by simp
  moreover note main_loop_raised[OF assms(1) assms(2)[unfolded out], of its]
  ultimately show ?thesis using out evs' by blast
qed

theorem failed_cancellation_ends_the_wait_witness:
  "\<not> shutdown_answer (idle cancelled_cycle) \<and>
   request_outcome (Response 404) = Inl (HTTPError 404) \<and>
   fst (handle_message example_loads (init 0) (answers (idle cancelled_cycle))
          (sibling_acts (idle cancelled_cycle) empty_world)) = Raised (HTTPError 404) \<and>
   main_loop example_loads (init 0) [idle cancelled_cycle] empty_world =
     (Running,
      [ShutdownIsSet False,
       RedisGet, RedisChecker (JStr ''c1''), PipePoll False, PipeSend example_message, EventClear,
       PostPrediction ''http://localhost:5000/predictions''
         (JObj [(''id'', JStr ''p1''), (''cancel_key'', JStr ''c1''), (''input'', JObj [(''x'', JNum 3)]),
                (''webhook'', JStr ''http://localhost:4900/webhook'')])
         (Response 202),
       EventWait False, ShouldCancel False, ShutdownIsSet False,
       EventWait False, ShouldCancel True,
       PostCancel ''http://localhost:5000/predictions/p1/cancel'' (Response 404),
       LogException (HTTPError 404)],
      \<lparr>pipe_in = [], pipe_out = [example_message], prediction_event = False\<rparr>)"
proof -
  let ?evs = "[RedisGet, RedisChecker (JStr ''c1''), PipePoll False, PipeSend example_message, EventClear,
       PostPrediction ''http://localhost:5000/predictions''
         (JObj [(''id'', JStr ''p1''), (''cancel_key'', JStr ''c1''), (''input'', JObj [(''x'', JNum 3)]),
                (''webhook'', JStr ''http://localhost:4900/webhook'')])
         (Response 202),
       EventWait False, ShouldCancel False, ShutdownIsSet False,
       EventWait False, ShouldCancel True,
       PostCancel ''http://localhost:5000/predictions/p1/cancel'' (Response 404)]"
  have idle: "\<not> shutdown_answer (idle cancelled_cycle)" by (simp add: idle_def)
  have run: "handle_message example_loads (init 0) (answers (idle cancelled_cycle))
          (sibling_acts (idle cancelled_cycle) empty_world) =
        (Raised (HTTPError 404), ?evs, \<lparr>pipe_in = [], pipe_out = [example_message], prediction_event = False\<rparr>)"
    by (simp add: handle_message_def example_defs idle_def sibling_acts_def)
  have mem: "PostCancel ''http://localhost:5000/predictions/p1/cancel'' (Response 404) \<in> set ?evs" by simp
  have failed: "request_outcome (Response 404) = Inl (HTTPError 404)"
    by (simp add: request_outcome_def raise_for_status_def status_forcelist_def)
  from failed_cancellation_ends_the_wait[OF idle run mem failed, of "[]"] idle run failed
  show ?thesis by simp
qed

subsection \<open>How the wait ends\<close>

lemma cancel_prediction_timeout:
  "cancel_prediction (self\<lparr>predict_timeout := t\<rparr>) pid a = cancel_prediction self pid a"
  by (cases pid) (simp_all add: cancel_prediction_def)

lemma wait_loop_timeout:
  "wait_loop (self\<lparr>predict_timeout := t\<rparr>) pid ps w = wait_loop self pid ps w"
  by (induction ps arbitrary: w)
    (auto simp: cancel_prediction_timeout Let_def split: prod.splits sum.splits)

lemma handle_message_timeout:
  "handle_message loads (self\<lparr>predict_timeout := t\<rparr>) c w = handle_message loads self c w"
  by (auto simp: handle_message_def wait_loop_timeout Let_def
      split: get_result.splits option.splits sum.splits prod.splits)

lemma setup_wait_timeout:
  "setup_wait (self\<lparr>predict_timeout := t\<rparr>) ps n = setup_wait self ps n"
  by (induction ps arbitrary: n)
    (auto simp: Let_def split: health_result.splits option.splits sum.splits prod.splits bool.splits)

lemma main_loop_timeout:
  "main_loop loads (self\<lparr>predict_timeout := t\<rparr>) its w = main_loop loads self its w"
  by (induction its arbitrary: w)
    (auto simp: handle_message_timeout split: prod.splits outcome.splits)

lemma start_timeout:
  "start loads (self\<lparr>predict_timeout := t\<rparr>) s w = start loads self s w"
  by (auto simp: start_def setup_wait_timeout main_loop_timeout split: prod.splits setup_exit.splits)

lemma wait_loop_uneventful:
  "\<forall>p \<in> set ps. uneventful self pid p \<Longrightarrow> fst (wait_loop self pid ps w) = Exhausted"
proof (induction ps arbitrary: w)
  case Nil
  then show ?case by simp
next
  case (Cons p ps)
  then have p: "\<not> wait_result p" "\<not> shutdown_set p"
    "should_cancel p \<longrightarrow> fst (cancel_prediction self pid (cancel_result p)) = Inr ()"
    and rest: "\<forall>p \<in> set ps. uneventful self pid p"
    by (simp_all add: uneventful_def)
  from Cons.IH[OF rest, of "w\<lparr>prediction_event := False\<rparr>"] p show ?case
    unfolding wait_loop_Cons by (auto split: prod.splits sum.splits)
qed

lemma wait_loop_exits:
  assumes "wait_loop self pid ps w = (x, evs, w')"
  shows "case x of
           Exhausted \<Rightarrow> \<forall>p \<in> set ps. uneventful self pid p
         | Break \<Rightarrow> \<exists>qs p rest. ps = qs @ p # rest \<and> (\<forall>q \<in> set qs. uneventful self pid q) \<and> wait_result p
         | Return \<Rightarrow>
             \<exists>qs p rest. ps = qs @ p # rest \<and> (\<forall>q \<in> set qs. uneventful self pid q) \<and>
               \<not> wait_result p \<and> shutdown_set p
         | Raise e \<Rightarrow>
             \<exists>qs p rest. ps = qs @ p # rest \<and> (\<forall>q \<in> set qs. uneventful self pid q) \<and>
               \<not> wait_result p \<and> should_cancel p \<and>
               fst (cancel_prediction self pid (cancel_result p)) = Inl e"
  using assms
proof (induction ps arbitrary: w x evs w')
  case Nil
  then show ?case by auto
next
  case (Cons p ps)
  obtain x2 later w2 where rec: "wait_loop self pid ps (w\<lparr>prediction_event := False\<rparr>) = (x2, later, w2)"
    by (metis prod_cases3)
  note IH = Cons.IH[OF rec]
  consider (completed) "wait_result p"
    | (raised) e where "\<not> wait_result p" "should_cancel p" "fst (cancel_prediction self pid (cancel_result p)) = Inl e"
    | (shut) "\<not> wait_result p" "should_cancel p \<longrightarrow> fst (cancel_prediction self pid (cancel_result p)) = Inr ()" "shutdown_set p"
    | (goes_on) "uneventful self pid p"
    unfolding uneventful_def
    by (cases "fst (cancel_prediction self pid (cancel_result p))") auto
  then show ?case
  proof cases
    case completed
    with Cons.prems have "x = Break" by simp
    with completed show ?thesis by (auto intro!: exI[of _ "[]"])
  next
    case (raised e)
    with Cons.prems[unfolded wait_loop_Cons] have "x = Raise e"
      by (auto split: prod.splits sum.splits if_splits)
    with raised show ?thesis by (auto intro!: exI[of _ "[]"])
  next
    case shut
    with Cons.prems[unfolded wait_loop_Cons] have "x = Return"
      by (auto split: prod.splits sum.splits if_splits)
    with shut show ?thesis by (auto intro!: exI[of _ "[]"])
  next
    case goes_on
    then have p: "\<not> wait_result p" "\<not> shutdown_set p"
      "should_cancel p \<longrightarrow> fst (cancel_prediction self pid (cancel_result p)) = Inr ()"
      by (simp_all add: uneventful_def)
    with Cons.prems[unfolded wait_loop_Cons] rec have x: "x = x2"
      by (auto split: prod.splits sum.splits if_splits)
    show ?thesis
    proof (cases x2)
      case Exhausted
      with IH goes_on x show ?thesis by simp
    next
      case Break
      with IH obtain qs q rest where "ps = qs @ q # rest" "\<forall>q \<in> set qs. uneventful self pid q" "wait_result q"
        by auto
      with goes_on have "p # ps = (p # qs) @ q # rest \<and> (\<forall>q \<in> set (p # qs). uneventful self pid q) \<and> wait_result q"
        by simp
      then show ?thesis unfolding x Break by (simp only: loop_exit.case) blast
    next
      case Return
      with IH obtain qs q rest where "ps = qs @ q # rest" "\<forall>q \<in> set qs. uneventful self pid q"
        "\<not> wait_result q \<and> shutdown_set q"
        by auto
      with goes_on have "p # ps = (p # qs) @ q # rest \<and> (\<forall>q \<in> set (p # qs). uneventful self pid q) \<and>
          \<not> wait_result q \<and> shutdown_set q"
        by simp
      then show ?thesis unfolding x Return by (simp only: loop_exit.case) blast
    next
      case (Raise e)
      with IH obtain qs q rest where "ps = qs @ q # rest" "\<forall>q \<in> set qs. uneventful self pid q"
        "\<not> wait_result q \<and> should_cancel q \<and> fst (cancel_prediction self pid (cancel_result q)) = Inl e"
        by auto
      with goes_on have "p # ps = (p # qs) @ q # rest \<and> (\<forall>q \<in> set (p # qs). uneventful self pid q) \<and>
          \<not> wait_result q \<and> should_cancel q \<and> fst (cancel_prediction self pid (cancel_result q)) = Inl e"
        by simp
      then show ?thesis unfolding x Raise by (simp only: loop_exit.case) blast
    qed
  qed
qed

text \<open>
  Claim C9, as the code has it. The wait has a third way out: an exception of the
  cancellation path. Here the cancellation request cannot be delivered in the first pass;
  the call raises with the prediction neither seen to complete nor the shutdown event seen
  set.
\<close>

theorem third_exit_counterexample:
  "handle_message example_loads (init 0) unreachable_cycle empty_world =
     (Raised RequestException,
      [RedisGet, RedisChecker (JStr ''c1''), PipePoll False, PipeSend example_message, EventClear,
       PostPrediction ''http://localhost:5000/predictions''
         (JObj [(''id'', JStr ''p1''), (''cancel_key'', JStr ''c1''), (''input'', JObj [(''x'', JNum 3)]),
                (''webhook'', JStr ''http://localhost:4900/webhook'')])
         (Response 202),
       EventWait False, ShouldCancel True,
       PostCancel ''http://localhost:5000/predictions/p1/cancel'' RequestFailed],
      \<lparr>pipe_in = [], pipe_out = [example_message], prediction_event = False\<rparr>) \<and>
   EventWait True \<notin> set (fst (snd (handle_message example_loads (init 0) unreachable_cycle empty_world))) \<and>
   ShutdownIsSet True \<notin> set (fst (snd (handle_message example_loads (init 0) unreachable_cycle empty_world)))"
  by (simp add: handle_message_def example_defs)

text \<open>
  Claim C9, amended. No timeout bounds a job. \<^verbatim>\<open>predict_timeout\<close> is stored and
  never read: two runs that differ only in it are equal. And the wait loop goes on for
  as many passes as are uneventful, whatever their number; it ends only in a pass in
  which the wait returns \<^verbatim>\<open>True\<close> (completion), or the shutdown event is found set,
  or the cancellation is asked for and raises.
\<close>

theorem no_timeout_and_three_exits:
  "start loads (self\<lparr>predict_timeout := t\<rparr>) s w = start loads self s w \<and>
   ((\<forall>p \<in> set ps. uneventful self pid p) \<longrightarrow> fst (wait_loop self pid ps w) = Exhausted) \<and>
   (case fst (wait_loop self pid ps w) of
      Exhausted \<Rightarrow> \<forall>p \<in> set ps. uneventful self pid p
    | Break \<Rightarrow> \<exists>qs p rest. ps = qs @ p # rest \<and> (\<forall>q \<in> set qs. uneventful self pid q) \<and> wait_result p
    | Return \<Rightarrow>
        \<exists>qs p rest. ps = qs @ p # rest \<and> (\<forall>q \<in> set qs. uneventful self pid q) \<and>
          \<not> wait_result p \<and> shutdown_set p
    | Raise e \<Rightarrow>
        \<exists>qs p rest. ps = qs @ p # rest \<and> (\<forall>q \<in> set qs. uneventful self pid q) \<and>
          \<not> wait_result p \<and> should_cancel p \<and>
          fst (cancel_prediction self pid (cancel_result p)) = Inl e)"
proof -
  obtain x evs w' where run: "wait_loop self pid ps w = (x, evs, w')" by (metis prod_cases3)
  from wait_loop_exits[OF run] wait_loop_uneventful[of ps self pid w] start_timeout[where loads=loads and self=self and t=t and s=s and w=w]
  show ?thesis unfolding run by simp
qed

theorem no_timeout_and_three_exits_witness:
  "uneventful (init 0) (JStr ''p1'') quiet \<and>
   fst (wait_loop (init 0) (JStr ''p1'') [quiet, quiet, quiet] empty_world) = Exhausted \<and>
   fst (wait_loop (init 0) (JStr ''p1'') [quiet, cancel_unreachable, completes] empty_world) = Raise RequestException \<and>
   (\<exists>qs p rest. [quiet, cancel_unreachable, completes] = qs @ p # rest \<and>
      (\<forall>q \<in> set qs. uneventful (init 0) (JStr ''p1'') q) \<and> \<not> wait_result p \<and> should_cancel p \<and>
      fst (cancel_prediction (init 0) (JStr ''p1'') (cancel_result p)) = Inl RequestException) \<and>
   start example_loads (init 600) example_script empty_world =
     start example_loads (init 0) example_script empty_world"
proof -
  have q: "uneventful (init 0) (JStr ''p1'') quiet" by (simp add: uneventful_def quiet_def)
  then have all: "\<forall>p \<in> set [quiet, quiet, quiet]. uneventful (init 0) (JStr ''p1'') p" by simp
  have r: "fst (wait_loop (init 0) (JStr ''p1'') [quiet, cancel_unreachable, completes] empty_world) = Raise RequestException"
    by (simp add: example_defs)
  have i: "init 600 = (init 0)\<lparr>predict_timeout := 600\<rparr>" by (simp add: init_def)
  from no_timeout_and_three_exits[where loads=example_loads and self="init 0" and t=600
      and s=example_script and w=empty_world
      and ps="[quiet, quiet, quiet]" and pid="JStr ''p1''"] all
  have a: "fst (wait_loop (init 0) (JStr ''p1'') [quiet, quiet, quiet] empty_world) = Exhausted"
    and s: "start example_loads (init 600) example_script empty_world =
     start example_loads (init 0) example_script empty_world"
    unfolding i by blast+
  from no_timeout_and_three_exits[where loads=example_loads and self="init 0" and t=600
      and s=example_script and w=empty_world
      and ps="[quiet, cancel_unreachable, completes]" and pid="JStr ''p1''"] r
  have "\<exists>qs p rest. [quiet, cancel_unreachable, completes] = qs @ p # rest \<and>
      (\<forall>q \<in> set qs. uneventful (init 0) (JStr ''p1'') q) \<and> \<not> wait_result p \<and> should_cancel p \<and>
      fst (cancel_prediction (init 0) (JStr ''p1'') (cancel_result p)) = Inl RequestException"
    by simp
  with q a r s show ?thesis by blast
qed

subsection \<open>Draining the pipe\<close>

text \<open>
  Claim C4, on the code. The loop \<^verbatim>\<open>while pipe.poll(): pipe.recv()\<close> reads what the
  sibling sent to the worker; a message the worker wrote earlier travels the other way and
  is not touched by it. Two passes of the main loop, starting with an empty pipe and with
  a sibling that reads nothing in between: the first submission fails after its message
  was written, and the second pass finds nothing to drain
  (\<^verbatim>\<open>poll()\<close> is \<^verbatim>\<open>False\<close>) and writes its own message behind the first. The
  sibling then has two pending messages, the first of them for a job that was never
  started.
\<close>

theorem stale_descriptor_stays_pending:
  "main_loop example_loads (init 0) [idle refused_cycle, idle caller_cycle] empty_world =
     (Running,
      [ShutdownIsSet False,
       RedisGet, RedisChecker (JStr ''c1''), PipePoll False, PipeSend example_message, EventClear,
       PostPrediction ''http://localhost:5000/predictions''
         (JObj [(''id'', JStr ''p1''), (''cancel_key'', JStr ''c1''), (''input'', JObj [(''x'', JNum 3)]),
                (''webhook'', JStr ''http://localhost:4900/webhook'')])
         (Response 422),
       LogException (HTTPError 422),
       ShutdownIsSet False,
       RedisGet, RedisChecker (JStr ''c2''), PipePoll False, PipeSend caller_message, EventClear,
       PostPrediction ''http://localhost:5000/predictions''
         (JObj [(''id'', JStr ''p2''), (''cancel_key'', JStr ''c2''),
                (''webhook'', JStr ''http://localhost:4900/webhook''), (''input'', JObj [(''x'', JNum 4)])])
         (Response 202),
       EventWait True, RedisAck ''2-0''],
      \<lparr>pipe_in = [], pipe_out = [example_message, caller_message], prediction_event = True\<rparr>) \<and>
   length (pipe_out (snd (snd (main_loop example_loads (init 0) [idle refused_cycle, idle caller_cycle]
                                 empty_world)))) = 2"
  by (simp add: handle_message_def example_defs idle_def sibling_acts_def)

subsection \<open>Failures in the main loop\<close>

lemma after_shutdown_append:
  "ShutdownIsSet True \<notin> set xs \<Longrightarrow> after_shutdown (xs @ ys) = after_shutdown ys"
  by (induction xs) auto

lemma after_shutdown_first:
  "ShutdownIsSet True \<notin> set xs \<Longrightarrow> after_shutdown (xs @ ShutdownIsSet True # ys) = ys"
  by (induction xs) auto

text \<open>How a call of the handler meets the shutdown event.\<close>

lemma handle_message_shutdown:
  assumes "handle_message loads self c w = (out, evs, w')"
  shows "(ShutdownIsSet True \<in> set evs \<longrightarrow>
            out = Returned \<and> (\<exists>pre. evs = pre @ [ShutdownIsSet True] \<and> ShutdownIsSet True \<notin> set pre)) \<and>
         farewell \<notin> set evs"
  using assms
proof (cases rule: handle_message_cases)
  case early
  then show ?thesis by (auto simp: farewell_def)
next
  case (refused mid js kvs e')
  have "\<forall>e \<in> set evs. dispatching e"
    unfolding refused(5) using drain_pipe_dispatching[of "pipe_in w"] by auto
  then have "ShutdownIsSet True \<notin> set evs" "farewell \<notin> set evs"
    unfolding farewell_def by fastforce+
  then show ?thesis by simp
next
  case (waited mid js kvs pid x waited)
  define posted where "posted = [RedisGet, RedisChecker (case map_of kvs ''cancel_key'' of None \<Rightarrow> JNull | Some v \<Rightarrow> v)]
             @ fst (drain_pipe (pipe_in w))
             @ [PipeSend (JObj kvs), EventClear,
                PostPrediction (cog_http_base self @ ''/predictions'')
                  (JObj (dict_items_set kvs ''webhook'' (JStr ''http://localhost:4900/webhook''))) (post_answer c)]"
  have evs: "evs = posted @ waited @ (if x = Break then [RedisAck mid] else [])"
    unfolding posted_def using waited(6) by simp
  have d: "\<forall>e \<in> set posted. dispatching e"
    unfolding posted_def using drain_pipe_dispatching[of "pipe_in w"] by auto
  then have dp: "ShutdownIsSet True \<notin> set posted" "farewell \<notin> set posted"
    unfolding farewell_def by fastforce+
  from wait_loop_shape[OF waited(5)] obtain pre l where l: "waited = pre @ l" "\<forall>e \<in> set pre. calm e"
    "(case x of
              Break \<Rightarrow> l = [EventWait True]
            | Return \<Rightarrow> l = [ShutdownIsSet True]
            | Raise e \<Rightarrow> (l = [] \<and> e = TypeError) \<or> (\<exists>u a. l = [PostCancel u a] \<and> request_outcome a = Inl e)
            | Exhausted \<Rightarrow> l = [])" by blast
  have cp: "ShutdownIsSet True \<notin> set pre" "farewell \<notin> set pre"
    using l(2) unfolding farewell_def by fastforce+
  have fw: "farewell \<notin> set evs"
    using dp cp l(3) unfolding evs l(1) farewell_def by (cases x) auto
  show ?thesis
  proof (cases x)
    case Return
    with l(3) have "evs = (posted @ pre) @ [ShutdownIsSet True]" "ShutdownIsSet True \<notin> set (posted @ pre)"
      unfolding evs l(1) using dp cp by simp_all
    with waited(7) Return fw show ?thesis by auto
  qed (use l(3) dp cp fw in \<open>auto simp: evs l(1)\<close>)
qed

lemma main_loop_never_crashes:
  "main_loop loads self its w = (x, evs, w') \<Longrightarrow>
     (\<forall>e. x \<noteq> Crashed e) \<and>
     (x = Exited \<longrightarrow> (\<exists>before. evs = before @ [ShutdownIsSet True, farewell])) \<and>
     (x = Running \<longrightarrow> farewell \<notin> set evs)"
proof (induction its arbitrary: w x evs w')
  case Nil
  then show ?case by auto
next
  case (Cons it its)
  show ?case
  proof (cases "shutdown_answer it")
    case True
    with Cons.prems show ?thesis by (auto simp: farewell_def)
  next
    case False
    obtain out hevs w1 where h: "handle_message loads self (answers it) (sibling_acts it w) = (out, hevs, w1)"
      by (metis prod_cases3)
    obtain x2 later w2 where rec: "main_loop loads self its w1 = (x2, later, w2)"
      by (metis prod_cases3)
    have fw: "farewell \<notin> set hevs" using handle_message_shutdown[OF h] by simp
    have nf: "farewell \<noteq> ShutdownIsSet False" "\<And>e. farewell \<noteq> LogException e" by (simp_all add: farewell_def)
    show ?thesis
    proof (cases out)
      case Returned
      with Cons.prems False h rec have "x = x2" "evs = (ShutdownIsSet False # hevs) @ later" by auto
      with Cons.IH[OF rec] fw nf show ?thesis by (auto simp: append_eq_append_conv2) 
    next
      case (Raised e)
      with Cons.prems False h rec have "x = x2" "evs = (ShutdownIsSet False # hevs @ [LogException e]) @ later" by auto
      with Cons.IH[OF rec] fw nf show ?thesis by (auto simp: append_eq_append_conv2)
    next
      case Polling
      with Cons.prems False h have "x = Running" "evs = ShutdownIsSet False # hevs" by auto
      with fw nf show ?thesis by auto
    qed
  qed
qed

lemmas run_defs =
  start_def example_script_def interrupted_script_def interrupted_cycle_def interrupted_def
  container_ready_def container_starting_def ready_body_def setup_succeeded_def Status_SUCCEEDED_def
  poll_again_def liveness_period_def shutdown_now_def idle_def sibling_acts_def handle_message_def
  broken_queue_cycle_def farewell_def completed_setup_def

text \<open>
  Claim C8. Whatever \<^verbatim>\<open>handle_message\<close> raises in a pass of the main loop, the loop
  logs it and goes on with its next pass, from the state the failed call left. A failure
  of the dequeue other than an empty queue is such an exception (and the call made no
  other call, not even the sleep). The main loop never ends with an exception: it ends
  only after it found the shutdown event set, with the farewell.
\<close>

theorem main_loop_swallows_every_failure:
  "(\<not> shutdown_answer it \<and> handle_message loads self (answers it) (sibling_acts it w) = (Raised e, evs, w1) \<longrightarrow>
      main_loop loads self (it # its) w =
        (case main_loop loads self its w1 of
           (x, later, w2) \<Rightarrow> (x, ShutdownIsSet False # evs @ [LogException e] @ later, w2))) \<and>
   (get_answer c = GetRaises e \<and> e \<noteq> EmptyRedisStream \<longrightarrow>
      handle_message loads self c w = (Raised e, [RedisGet], w)) \<and>
   (\<forall>e'. fst (main_loop loads self its w) \<noteq> Crashed e') \<and>
   (fst (main_loop loads self its w) = Exited \<longrightarrow>
      (\<exists>before. fst (snd (main_loop loads self its w)) = before @ [ShutdownIsSet True, farewell]))"
proof -
  obtain x evs' w' where run: "main_loop loads self its w = (x, evs', w')" by (metis prod_cases3)
  have "get_answer c = GetRaises e \<and> e \<noteq> EmptyRedisStream \<longrightarrow>
      handle_message loads self c w = (Raised e, [RedisGet], w)"
    by (simp add: handle_message_def)
  with main_loop_never_crashes[OF run] main_loop_raised[of it loads self w e evs w1 its]
  show ?thesis unfolding run by auto
qed

theorem main_loop_swallows_every_failure_witness:
  "\<not> shutdown_answer (idle refused_cycle) \<and>
   fst (handle_message example_loads (init 0) (answers (idle refused_cycle))
          (sibling_acts (idle refused_cycle) empty_world)) = Raised (HTTPError 422) \<and>
   main_loop example_loads (init 0) [idle refused_cycle, shutdown_now] empty_world =
     (Exited,
      [ShutdownIsSet False,
       RedisGet, RedisChecker (JStr ''c1''), PipePoll False, PipeSend example_message, EventClear,
       PostPrediction ''http://localhost:5000/predictions''
         (JObj [(''id'', JStr ''p1''), (''cancel_key'', JStr ''c1''), (''input'', JObj [(''x'', JNum 3)]),
                (''webhook'', JStr ''http://localhost:4900/webhook'')])
         (Response 422),
       LogException (HTTPError 422),
       ShutdownIsSet True, farewell],
      \<lparr>pipe_in = [], pipe_out = [example_message], prediction_event = False\<rparr>) \<and>
   get_answer broken_queue_cycle = GetRaises (OtherException ''ConnectionError'') \<and>
   handle_message example_loads (init 0) broken_queue_cycle empty_world =
     (Raised (OtherException ''ConnectionError''), [RedisGet], empty_world)"
proof -
  let ?hevs = "[RedisGet, RedisChecker (JStr ''c1''), PipePoll False, PipeSend example_message, EventClear,
       PostPrediction ''http://localhost:5000/predictions''
         (JObj [(''id'', JStr ''p1''), (''cancel_key'', JStr ''c1''), (''input'', JObj [(''x'', JNum 3)]),
                (''webhook'', JStr ''http://localhost:4900/webhook'')])
         (Response 422)]"
  let ?w1 = "\<lparr>pipe_in = [], pipe_out = [example_message], prediction_event = False\<rparr>"
  have idle: "\<not> shutdown_answer (idle refused_cycle)" by (simp add: idle_def)
  have h: "handle_message example_loads (init 0) (answers (idle refused_cycle))
          (sibling_acts (idle refused_cycle) empty_world) = (Raised (HTTPError 422), ?hevs, ?w1)"
    by (simp add: run_defs example_defs)
  have rest: "main_loop example_loads (init 0) [shutdown_now] ?w1 = (Exited, [ShutdownIsSet True, farewell], ?w1)"
    by (simp add: shutdown_now_def farewell_def)
  have q: "get_answer broken_queue_cycle = GetRaises (OtherException ''ConnectionError'') \<and>
      OtherException ''ConnectionError'' \<noteq> EmptyRedisStream"
    by (simp add: broken_queue_cycle_def)
  note inst = main_loop_swallows_every_failure[where it="idle refused_cycle" and loads=example_loads
      and self="init 0" and w=empty_world and evs="?hevs" and ?w1.0="?w1" and its="[shutdown_now]"
      and c=broken_queue_cycle and e="HTTPError 422"]
  note inst2 = main_loop_swallows_every_failure[where it="idle refused_cycle" and loads=example_loads
      and self="init 0" and w=empty_world and evs="?hevs" and ?w1.0="?w1" and its="[shutdown_now]"
      and c=broken_queue_cycle and e="OtherException ''ConnectionError''"]
  from inst idle h rest have a: "main_loop example_loads (init 0) [idle refused_cycle, shutdown_now] empty_world =
     (Exited, ShutdownIsSet False # ?hevs @ [LogException (HTTPError 422)] @ [ShutdownIsSet True, farewell], ?w1)"
    by simp
  from inst2 q have b: "handle_message example_loads (init 0) broken_queue_cycle empty_world =
     (Raised (OtherException ''ConnectionError''), [RedisGet], empty_world)" by blast
  from a b idle h q show ?thesis by simp
qed

subsection \<open>Shutdown\<close>

lemma main_loop_after_shutdown_seen:
  assumes "main_loop loads self its w = (x, later, w')" and "ShutdownIsSet False \<notin> set later"
  shows "(its = [] \<and> later = [] \<and> x = Running \<and> w' = w) \<or>
         (its \<noteq> [] \<and> later = [ShutdownIsSet True, farewell] \<and> x = Exited \<and> w' = w)"
proof (cases its)
  case Nil
  with assms show ?thesis by simp
next
  case (Cons it rest)
  show ?thesis
  proof (cases "shutdown_answer it")
    case True
    with assms Cons show ?thesis by (auto simp: farewell_def)
  next
    case False
    with assms(1) Cons have "ShutdownIsSet False \<in> set later"
      by (auto split: prod.splits outcome.splits)
    with assms(2) show ?thesis by simp
  qed
qed

lemma main_loop_shutdown_next:
  "shutdown_answer it \<Longrightarrow> main_loop loads self [it] w = (Exited, [ShutdownIsSet True, farewell], w)"
  by (simp add: farewell_def)

text \<open>Once the main loop has seen the shutdown event set.\<close>

lemma main_loop_shutdown:
  assumes "main_loop loads self its w = (x, evs, w')"
    and "ShutdownIsSet True \<in> set evs"
    and "ShutdownIsSet False \<notin> set (after_shutdown evs)"
  shows "(after_shutdown evs = [] \<and> x = Running \<or>
          after_shutdown evs = [farewell] \<and> x = Exited \<or>
          after_shutdown evs = [ShutdownIsSet True, farewell] \<and> x = Exited) \<and>
         (x = Running \<longrightarrow> (\<forall>it. shutdown_answer it \<longrightarrow>
            main_loop loads self (its @ [it]) w = (Exited, evs @ [ShutdownIsSet True, farewell], w')))"
  using assms
proof (induction its arbitrary: w x evs w')
  case Nil
  then show ?case by simp
next
  case (Cons it its)
  show ?case
  proof (cases "shutdown_answer it")
    case True
    with Cons.prems(1) show ?thesis by (auto simp: farewell_def)
  next
    case False
    obtain out hevs w1 where h: "handle_message loads self (answers it) (sibling_acts it w) = (out, hevs, w1)"
      by (metis prod_cases3)
    obtain x2 later w2 where rec: "main_loop loads self its w1 = (x2, later, w2)"
      by (metis prod_cases3)
    note hs = handle_message_shutdown[OF h]
    show ?thesis
    proof (cases "ShutdownIsSet True \<in> set hevs")
      case True
      with hs obtain pre where out: "out = Returned" and pre: "hevs = pre @ [ShutdownIsSet True]"
        "ShutdownIsSet True \<notin> set pre" by blast
      from Cons.prems(1) False h rec out have x: "x = x2" and w': "w' = w2"
        and evs: "evs = (ShutdownIsSet False # pre) @ ShutdownIsSet True # later"
        by (simp_all add: pre)
      have as: "after_shutdown evs = later"
        unfolding evs using pre(2) by (intro after_shutdown_first) simp
      with Cons.prems(3) have "ShutdownIsSet False \<notin> set later" by simp
      from main_loop_after_shutdown_seen[OF rec this]
      show ?thesis
      proof
        assume a: "its = [] \<and> later = [] \<and> x2 = Running \<and> w2 = w1"
        have "\<forall>it'. shutdown_answer it' \<longrightarrow>
            main_loop loads self ((it # its) @ [it']) w = (Exited, evs @ [ShutdownIsSet True, farewell], w')"
          using a False h out x w' evs by (auto simp: farewell_def pre)
        with a as x show ?thesis by simp
      next
        assume "its \<noteq> [] \<and> later = [ShutdownIsSet True, farewell] \<and> x2 = Exited \<and> w2 = w1"
        with as x show ?thesis by simp
      qed
    next
      case nothere: False
      with hs have dummy: True by simp
      show ?thesis
      proof (cases out)
        case Polling
        with Cons.prems(1) False h have "evs = ShutdownIsSet False # hevs" by simp
        with Cons.prems(2) nothere show ?thesis by simp
      next
        case Returned
        with Cons.prems(1) False h rec have x: "x = x2" and w': "w' = w2"
          and evs: "evs = (ShutdownIsSet False # hevs) @ later" by simp_all
        have as: "after_shutdown evs = after_shutdown later"
          unfolding evs using nothere by (intro after_shutdown_append) simp
        have "ShutdownIsSet True \<in> set later" using Cons.prems(2) nothere unfolding evs by simp
        from Cons.IH[OF rec this] Cons.prems(3) as
        have IH: "(after_shutdown later = [] \<and> x2 = Running \<or>
          after_shutdown later = [farewell] \<and> x2 = Exited \<or>
          after_shutdown later = [ShutdownIsSet True, farewell] \<and> x2 = Exited)"
          "x2 = Running \<longrightarrow> (\<forall>it. shutdown_answer it \<longrightarrow>
            main_loop loads self (its @ [it]) w1 = (Exited, later @ [ShutdownIsSet True, farewell], w2))"
          by simp_all
        have "x = Running \<longrightarrow> (\<forall>it'. shutdown_answer it' \<longrightarrow>
            main_loop loads self ((it # its) @ [it']) w = (Exited, evs @ [ShutdownIsSet True, farewell], w'))"
          using IH(2) False h Returned x w' evs by simp
        with IH(1) as x show ?thesis by simp
      next
        case (Raised e)
        with Cons.prems(1) False h rec have x: "x = x2" and w': "w' = w2"
          and evs: "evs = (ShutdownIsSet False # hevs @ [LogException e]) @ later" by simp_all
        have as: "after_shutdown evs = after_shutdown later"
          unfolding evs using nothere by (intro after_shutdown_append) simp
        have "ShutdownIsSet True \<in> set later" using Cons.prems(2) nothere unfolding evs by simp
        from Cons.IH[OF rec this] Cons.prems(3) as
        have IH: "(after_shutdown later = [] \<and> x2 = Running \<or>
          after_shutdown later = [farewell] \<and> x2 = Exited \<or>
          after_shutdown later = [ShutdownIsSet True, farewell] \<and> x2 = Exited)"
          "x2 = Running \<longrightarrow> (\<forall>it. shutdown_answer it \<longrightarrow>
            main_loop loads self (its @ [it]) w1 = (Exited, later @ [ShutdownIsSet True, farewell], w2))"
          by simp_all
        have "x = Running \<longrightarrow> (\<forall>it'. shutdown_answer it' \<longrightarrow>
            main_loop loads self ((it # its) @ [it']) w = (Exited, evs @ [ShutdownIsSet True, farewell], w'))"
          using IH(2) False h Raised x w' evs by simp
        with IH(1) as x show ?thesis by simp
      qed
    qed
  qed
qed
lemma setup_succeeded_True:
  "setup_succeeded body = Inr True \<longleftrightarrow>
     subscript body ''status'' = Inr (JStr ''healthy'') \<and>
     (\<exists>setup. subscript body ''setup'' = Inr setup \<and> setup \<noteq> JNull \<and>
        subscript setup ''status'' = Inr (JStr ''succeeded''))"
  by (auto simp: setup_succeeded_def Status_SUCCEEDED_def split: sum.splits)

lemma settling_poll_again: "\<forall>e \<in> set (poll_again n). settling e"
  by (simp add: poll_again_def)

lemma setup_wait_shape:
  assumes "setup_wait self ps n = (x, evs)"
  shows "\<exists>pre l. evs = pre @ l \<and> (\<forall>e \<in> set pre. settling e) \<and>
           (case x of
              SetupCompleted \<Rightarrow>
                (\<exists>body. l = [HealthCheck (cog_http_base self @ ''/health-check'') (HealthResponse 200 (Some body)),
                              completed_setup] \<and> setup_succeeded body = Inr True)
            | SetupShutdown \<Rightarrow> l = [ShutdownIsSet True]
            | _ \<Rightarrow> l = [])"
  using assms
proof (induction ps arbitrary: n x evs)
  case Nil
  then show ?case by auto
next
  case (Cons p ps)
  let ?asked = "[ShutdownIsSet False, HealthCheck (cog_http_base self @ ''/health-check'') (health p)]"
  consider (shut) "setup_shutdown p"
    | (ready) body where "\<not> setup_shutdown p" "health p = HealthResponse 200 (Some body)" "setup_succeeded body = Inr True"
    | (raised) e where "\<not> setup_shutdown p" "x = SetupRaised e" "evs = ?asked"
    | (retry) x2 later where "\<not> setup_shutdown p" "setup_wait self ps (Suc n) = (x2, later)"
        "x = x2" "evs = (?asked @ poll_again n) @ later"
    using Cons.prems
    by (cases "setup_wait self ps (Suc n)")
       (auto simp: Let_def split: health_result.splits option.splits sum.splits prod.splits bool.splits if_splits)
  then show ?case
  proof cases
    case shut
    with Cons.prems have "x = SetupShutdown" "evs = [] @ [ShutdownIsSet True]" by simp_all
    then show ?thesis by (intro exI[of _ "[]"] exI[of _ "[ShutdownIsSet True]"]) simp
  next
    case (ready body)
    with Cons.prems have "x = SetupCompleted"
      "evs = [ShutdownIsSet False] @ [HealthCheck (cog_http_base self @ ''/health-check'') (HealthResponse 200 (Some body)), completed_setup]"
      by (simp_all add: completed_setup_def)
    with ready(3) show ?thesis
      by (intro exI[of _ "[ShutdownIsSet False]"]
          exI[of _ "[HealthCheck (cog_http_base self @ ''/health-check'') (HealthResponse 200 (Some body)), completed_setup]"]) simp
  next
    case (raised e)
    then show ?thesis by (intro exI[of _ ?asked] exI[of _ "[]"]) simp
  next
    case (retry x2 later)
    from Cons.IH[OF retry(2)] obtain pre l where l: "later = pre @ l" "\<forall>e \<in> set pre. settling e"
      "(case x2 of
              SetupCompleted \<Rightarrow>
                (\<exists>body. l = [HealthCheck (cog_http_base self @ ''/health-check'') (HealthResponse 200 (Some body)),
                              completed_setup] \<and> setup_succeeded body = Inr True)
            | SetupShutdown \<Rightarrow> l = [ShutdownIsSet True]
            | _ \<Rightarrow> l = [])" by blast
    have "\<forall>e \<in> set ((?asked @ poll_again n) @ pre). settling e"
      using l(2) settling_poll_again[of n] by auto
    with l(1,3) retry(3,4) show ?thesis
      by (intro exI[of _ "(?asked @ poll_again n) @ pre"] exI[of _ l]) simp
  qed
qed
lemma settling_facts:
  assumes "\<forall>e \<in> set pre. settling e"
  shows "ShutdownIsSet True \<notin> set pre" "RedisGet \<notin> set pre" "farewell \<notin> set pre"
  using assms unfolding farewell_def by fastforce+

lemma start_cases:
  assumes "start loads self s w = (x, evs, w')"
  obtains
    (unsettled) pre where "evs = pre" "\<forall>e \<in> set pre. settling e" "\<exists>e. x = Crashed e \<or> x = Running" "w' = w"
      "\<And>it. start loads self (s\<lparr>iterations := iterations s @ [it]\<rparr>) w = (x, evs, w')"
  | (shut) pre later where "evs = pre @ ShutdownIsSet True # later" "\<forall>e \<in> set pre. settling e"
      "main_loop loads self (iterations s) w = (x, later, w')"
      "\<And>it. start loads self (s\<lparr>iterations := iterations s @ [it]\<rparr>) w =
         (case main_loop loads self (iterations s @ [it]) w of
            (x2, later2, w2) \<Rightarrow> (x2, pre @ ShutdownIsSet True # later2, w2))"
  | (ready) pre body later where
      "evs = (pre @ [HealthCheck (cog_http_base self @ ''/health-check'') (HealthResponse 200 (Some body)),
              completed_setup]) @ later"
      "\<forall>e \<in> set pre. settling e" "setup_succeeded body = Inr True"
      "main_loop loads self (iterations s) w = (x, later, w')"
      "\<And>it. start loads self (s\<lparr>iterations := iterations s @ [it]\<rparr>) w =
         (case main_loop loads self (iterations s @ [it]) w of
            (x2, later2, w2) \<Rightarrow>
              (x2, (pre @ [HealthCheck (cog_http_base self @ ''/health-check'') (HealthResponse 200 (Some body)),
                    completed_setup]) @ later2, w2))"
proof -
  obtain sx sevs where sw: "setup_wait self (setup_polls s) 0 = (sx, sevs)" by (metis surj_pair)
  from setup_wait_shape[OF sw] obtain pre l where l: "sevs = pre @ l" "\<forall>e \<in> set pre. settling e"
    "(case sx of
              SetupCompleted \<Rightarrow>
                (\<exists>body. l = [HealthCheck (cog_http_base self @ ''/health-check'') (HealthResponse 200 (Some body)),
                              completed_setup] \<and> setup_succeeded body = Inr True)
            | SetupShutdown \<Rightarrow> l = [ShutdownIsSet True]
            | _ \<Rightarrow> l = [])" by blast
  obtain x2 later w2 where ml: "main_loop loads self (iterations s) w = (x2, later, w2)" by (metis prod_cases3)
  show ?thesis
  proof (cases sx)
    case SetupCompleted
    with l(3) obtain body where b: "l = [HealthCheck (cog_http_base self @ ''/health-check'') (HealthResponse 200 (Some body)),
                              completed_setup]" "setup_succeeded body = Inr True" by auto
    show ?thesis
      using assms sw ml SetupCompleted l(1,2) b
      by (intro ready[of pre body later]) (auto simp: start_def split: prod.splits)
  next
    case SetupShutdown
    with l(3) have b: "l = [ShutdownIsSet True]" by simp
    show ?thesis
      using assms sw ml SetupShutdown l(1,2) b
      by (intro shut[of pre later]) (auto simp: start_def split: prod.splits)
  next
    case (SetupRaised e)
    with l(3) have b: "l = []" by simp
    show ?thesis
      using assms sw SetupRaised l(1,2) b
      by (intro unsettled[of pre]) (auto simp: start_def)
  next
    case SetupExhausted
    with l(3) have b: "l = []" by simp
    show ?thesis
      using assms sw SetupExhausted l(1,2) b
      by (intro unsettled[of pre]) (auto simp: start_def)
  qed
qed

text \<open>Uneventful passes at the head of the wait: each of them waits once and reads the
  shutdown event once.\<close>

lemma wait_loop_uneventful_prefix:
  assumes "\<forall>q \<in> set qs. uneventful self pid q"
  shows "\<exists>pre. (\<forall>e \<in> set pre. calm e) \<and> count_list pre (EventWait False) = length qs \<and>
           count_list pre (ShutdownIsSet False) = length qs \<and>
           (\<forall>ps w. wait_loop self pid (qs @ ps) w =
              (case wait_loop self pid ps (if qs = [] then w else w\<lparr>prediction_event := False\<rparr>) of
                 (x, later, w2) \<Rightarrow> (x, pre @ later, w2)))"
  using assms
proof (induction qs)
  case Nil
  show ?case by (intro exI[of _ "[]"]) simp
next
  case (Cons q qs)
  then obtain pre where pre: "\<forall>e \<in> set pre. calm e" "count_list pre (EventWait False) = length qs"
    "count_list pre (ShutdownIsSet False) = length qs"
    "\<And>ps w. wait_loop self pid (qs @ ps) w =
              (case wait_loop self pid ps (if qs = [] then w else w\<lparr>prediction_event := False\<rparr>) of
                 (x, later, w2) \<Rightarrow> (x, pre @ later, w2))"
    by auto
  from Cons.prems have q: "\<not> wait_result q" "\<not> shutdown_set q"
    "should_cancel q \<longrightarrow> fst (cancel_prediction self pid (cancel_result q)) = Inr ()"
    by (simp_all add: uneventful_def)
  obtain r cev where c:
    "(if should_cancel q then cancel_prediction self pid (cancel_result q) else (Inr (), [])) = (r, cev)"
    by (metis surj_pair)
  with q(3) have r: "r = Inr ()" by (auto split: if_splits)
  have cev: "cev = [] \<or> (\<exists>u a. cev = [PostCancel u a] \<and> request_outcome a = Inr ())"
    using c r cancel_prediction_cases[of self pid "cancel_result q" r cev] by (auto split: if_splits)
  let ?head = "[EventWait False, ShouldCancel (should_cancel q)] @ cev @ [ShutdownIsSet False]"
  have calm: "\<forall>e \<in> set (?head @ pre). calm e" using cev pre(1) by auto
  have count: "count_list (?head @ pre) (EventWait False) = length (q # qs)"
    "count_list (?head @ pre) (ShutdownIsSet False) = length (q # qs)"
    using cev pre(2,3) by auto
  have step: "wait_loop self pid ((q # qs) @ ps) w =
              (case wait_loop self pid ps (w\<lparr>prediction_event := False\<rparr>) of
                 (x, later, w2) \<Rightarrow> (x, (?head @ pre) @ later, w2))" for ps w
    using q(1,2) c r pre(4)[of ps "w\<lparr>prediction_event := False\<rparr>"]
    by (simp add: wait_loop_Cons del: wait_loop.simps split: prod.splits)
  show ?case
    using calm count step by (intro exI[of _ "?head @ pre"]) simp
qed

text \<open>A call that gets as far as the wait.\<close>

lemma handle_message_dispatched:
  assumes "get_answer c = GetOk mid js" and "loads js = Some message"
    and "subscript message ''id'' = Inr pid" and "request_outcome (post_answer c) = Inr ()"
  shows "\<exists>posted w2. (\<forall>e \<in> set posted. dispatching e) \<and>
           handle_message loads self c w =
             (case wait_loop self pid (polls c) w2 of
                (Break, waited, w3) \<Rightarrow> (Returned, posted @ waited @ [RedisAck mid], w3)
              | (Return, waited, w3) \<Rightarrow> (Returned, posted @ waited, w3)
              | (Raise e, waited, w3) \<Rightarrow> (Raised e, posted @ waited, w3)
              | (Exhausted, waited, w3) \<Rightarrow> (Polling, posted @ waited, w3))"
proof -
  from subscript_Inr_dict[OF assms(3)] obtain kvs where m: "message = JObj kvs" "map_of kvs ''id'' = Some pid"
    by blast
  obtain drained unread where d: "drain_pipe (pipe_in w) = (drained, unread)" by (metis surj_pair)
  have dd: "\<forall>e \<in> set drained. dispatching e" using drain_pipe_dispatching[of "pipe_in w"] d by simp
  let ?posted = "[RedisGet, RedisChecker (case map_of kvs ''cancel_key'' of None \<Rightarrow> JNull | Some v \<Rightarrow> v)]
      @ drained @ [PipeSend message, EventClear,
        PostPrediction (cog_http_base self @ ''/predictions'')
          (JObj (dict_items_set kvs ''webhook'' (JStr ''http://localhost:4900/webhook''))) (post_answer c)]"
  let ?w2 = "w\<lparr>pipe_in := unread, pipe_out := pipe_out w @ [message], prediction_event := False\<rparr>"
  have "\<forall>e \<in> set ?posted. dispatching e" using dd by auto
  moreover have "handle_message loads self c w =
             (case wait_loop self pid (polls c) ?w2 of
                (Break, waited, w3) \<Rightarrow> (Returned, ?posted @ waited @ [RedisAck mid], w3)
              | (Return, waited, w3) \<Rightarrow> (Returned, ?posted @ waited, w3)
              | (Raise e, waited, w3) \<Rightarrow> (Raised e, ?posted @ waited, w3)
              | (Exhausted, waited, w3) \<Rightarrow> (Polling, ?posted @ waited, w3))"
    using assms m d by (simp add: handle_message_def Let_def split: prod.splits loop_exit.splits)
  ultimately show ?thesis by blast
qed

text \<open>The pass of the wait in which the shutdown event is set.\<close>

lemma handle_message_shutdown_pass:
  assumes "get_answer c = GetOk mid js" and "loads js = Some message"
    and "subscript message ''id'' = Inr pid" and "request_outcome (post_answer c) = Inr ()"
    and "polls c = qs @ p # rest" and "\<forall>q \<in> set qs. uneventful self pid q"
    and "\<not> wait_result p" and "shutdown_set p"
  shows "case handle_message loads self c w of
           (out, evs, w') \<Rightarrow>
             (\<forall>m. RedisAck m \<notin> set evs) \<and> EventWait True \<notin> set evs \<and>
             count_list evs (EventWait False) = Suc (length qs) \<and>
             count_list evs (ShutdownIsSet False) = length qs \<and>
             ((should_cancel p \<longrightarrow> fst (cancel_prediction self pid (cancel_result p)) = Inr ()) \<longrightarrow>
                out = Returned \<and>
                (\<exists>before. evs = before @ [ShutdownIsSet True] \<and> ShutdownIsSet True \<notin> set before)) \<and>
             (\<forall>e. should_cancel p \<and> fst (cancel_prediction self pid (cancel_result p)) = Inl e \<longrightarrow>
                out = Raised e \<and> ShutdownIsSet True \<notin> set evs)"
proof -
  from handle_message_dispatched[where loads=loads and self=self and w=w, OF assms(1) assms(2) assms(3) assms(4)]
  obtain posted w2
    where posted: "\<forall>e \<in> set posted. dispatching e"
      and h: "handle_message loads self c w =
             (case wait_loop self pid (polls c) w2 of
                (Break, waited, w3) \<Rightarrow> (Returned, posted @ waited @ [RedisAck mid], w3)
              | (Return, waited, w3) \<Rightarrow> (Returned, posted @ waited, w3)
              | (Raise e, waited, w3) \<Rightarrow> (Raised e, posted @ waited, w3)
              | (Exhausted, waited, w3) \<Rightarrow> (Polling, posted @ waited, w3))" by blast
  from wait_loop_uneventful_prefix[OF assms(6)] obtain pre
    where pre: "\<forall>e \<in> set pre. calm e" "count_list pre (EventWait False) = length qs"
      "count_list pre (ShutdownIsSet False) = length qs"
      and wl: "\<And>ps w. wait_loop self pid (qs @ ps) w =
              (case wait_loop self pid ps (if qs = [] then w else w\<lparr>prediction_event := False\<rparr>) of
                 (x, later, w2) \<Rightarrow> (x, pre @ later, w2))" by blast
  define w1 where "w1 = (if qs = [] then w2 else w2\<lparr>prediction_event := False\<rparr>)"
  obtain r cev where c:
    "(if should_cancel p then cancel_prediction self pid (cancel_result p) else (Inr (), [])) = (r, cev)"
    by (metis surj_pair)
  have cevs: "ShutdownIsSet True \<notin> set cev" "\<forall>m. RedisAck m \<notin> set cev" "EventWait True \<notin> set cev"
    "EventWait False \<notin> set cev" "ShutdownIsSet False \<notin> set cev"
    using c cancel_prediction_cases[of self pid "cancel_result p" r cev] by (auto split: if_splits)
  note df = dispatching_facts[OF posted] and cf = calm_facts[OF pre(1)]
  show ?thesis
  proof (cases r)
    case (Inl e)
    with c have ce: "should_cancel p" "fst (cancel_prediction self pid (cancel_result p)) = Inl e"
      by (auto split: if_splits)
    let ?evs = "posted @ pre @ [EventWait False, ShouldCancel (should_cancel p)] @ cev"
    have "wait_loop self pid (p # rest) w1 =
        (Raise e, [EventWait False, ShouldCancel (should_cancel p)] @ cev, w1\<lparr>prediction_event := False\<rparr>)"
      using assms(7) c Inl by (simp add: wait_loop_Cons del: wait_loop.simps)
    then have run: "handle_message loads self c w = (Raised e, ?evs, w1\<lparr>prediction_event := False\<rparr>)"
      unfolding h assms(5) wl[of "p # rest" w2] w1_def[symmetric] by simp
    have "count_list ?evs (EventWait False) = Suc (length qs)"
      "count_list ?evs (ShutdownIsSet False) = length qs"
      using df(1,2) pre(2,3) cevs(4,5) by simp_all
    moreover have "\<forall>m. RedisAck m \<notin> set ?evs" using df(3) cf(3) cevs(2) by simp
    moreover have "EventWait True \<notin> set ?evs" "ShutdownIsSet True \<notin> set ?evs"
      using df(1,2) cf(1,2) cevs(1,3) by simp_all
    ultimately show ?thesis unfolding run using ce by simp
  next
    case (Inr u)
    with c have ok: "\<not> (should_cancel p \<and> fst (cancel_prediction self pid (cancel_result p)) \<noteq> Inr ())"
      by (auto split: if_splits)
    let ?before = "posted @ pre @ [EventWait False, ShouldCancel (should_cancel p)] @ cev"
    have "wait_loop self pid (p # rest) w1 =
        (Return, [EventWait False, ShouldCancel (should_cancel p)] @ cev @ [ShutdownIsSet True],
         w1\<lparr>prediction_event := False\<rparr>)"
      using assms(7,8) c Inr by (simp add: wait_loop_Cons del: wait_loop.simps)
    then have run: "handle_message loads self c w =
        (Returned, ?before @ [ShutdownIsSet True], w1\<lparr>prediction_event := False\<rparr>)"
      unfolding h assms(5) wl[of "p # rest" w2] w1_def[symmetric] by simp
    have "count_list (?before @ [ShutdownIsSet True]) (EventWait False) = Suc (length qs)"
      "count_list (?before @ [ShutdownIsSet True]) (ShutdownIsSet False) = length qs"
      using df(1,2) pre(2,3) cevs(4,5) by simp_all
    moreover have "\<forall>m. RedisAck m \<notin> set (?before @ [ShutdownIsSet True])"
      using df(3) cf(3) cevs(2) by simp
    moreover have "EventWait True \<notin> set (?before @ [ShutdownIsSet True])"
      using df(1) cf(1) cevs(3) by simp
    moreover have "ShutdownIsSet True \<notin> set ?before" using df(2) cf(2) cevs(1) by simp
    ultimately show ?thesis unfolding run using ok by auto
  qed
qed

text \<open>
  Claim C5. Once the shutdown event is set, the worker takes no further job, leaves the job
  it is waiting for unacknowledged, and exits without an exception.

  First, a run of \<^verbatim>\<open>start\<close> in which a check of the shutdown event found it set,
  and in which no later check found it cleared. After the first such check the run does
  nothing but, at most, check the event once more at the head of the main loop and log the
  farewell: it does not dequeue and it does not acknowledge. The run then exits, without an
  exception; if the answers end before the head of the main loop is reached, it exits as
  soon as that check is answered.

  Second, a call of \<^verbatim>\<open>handle_message\<close> that submitted its job and waits for it. Every
  pass of the wait that goes on reads the shutdown event, once, after its wait of one poll
  interval. In the pass in which the event is set and the wait timed out, the call makes
  no further wait: if the cancellation was not asked for, or went through, the call reads
  the event as the last thing it does and returns; if the cancellation request raised, the
  call ends with that exception. In both cases the message is not acknowledged.
\<close>

theorem shutdown_is_terminal:
  "(start loads self s w = (x, evs, w') \<and> ShutdownIsSet True \<in> set evs \<and>
    ShutdownIsSet False \<notin> set (after_shutdown evs) \<longrightarrow>
      (after_shutdown evs = [] \<and> x = Running \<or>
       after_shutdown evs = [farewell] \<and> x = Exited \<or>
       after_shutdown evs = [ShutdownIsSet True, farewell] \<and> x = Exited) \<and>
      RedisGet \<notin> set (after_shutdown evs) \<and> (\<forall>m. RedisAck m \<notin> set (after_shutdown evs)) \<and>
      (x = Running \<longrightarrow> (\<forall>it. shutdown_answer it \<longrightarrow>
         start loads self (s\<lparr>iterations := iterations s @ [it]\<rparr>) w =
           (Exited, evs @ [ShutdownIsSet True, farewell], w')))) \<and>
   (get_answer c = GetOk mid js \<and> loads js = Some message \<and> subscript message ''id'' = Inr pid \<and>
    request_outcome (post_answer c) = Inr () \<and>
    polls c = qs @ p # rest \<and> (\<forall>q \<in> set qs. uneventful self pid q) \<and>
    \<not> wait_result p \<and> shutdown_set p \<longrightarrow>
      (case handle_message loads self c w0 of
         (out, hevs, w1) \<Rightarrow>
           (\<forall>m. RedisAck m \<notin> set hevs) \<and> EventWait True \<notin> set hevs \<and>
           count_list hevs (EventWait False) = Suc (length qs) \<and>
           count_list hevs (ShutdownIsSet False) = length qs \<and>
           ((should_cancel p \<longrightarrow> fst (cancel_prediction self pid (cancel_result p)) = Inr ()) \<longrightarrow>
              out = Returned \<and>
              (\<exists>before. hevs = before @ [ShutdownIsSet True] \<and> ShutdownIsSet True \<notin> set before)) \<and>
           (\<forall>e. should_cancel p \<and> fst (cancel_prediction self pid (cancel_result p)) = Inl e \<longrightarrow>
              out = Raised e \<and> ShutdownIsSet True \<notin> set hevs)))"
proof (rule conjI; rule impI)
  assume "start loads self s w = (x, evs, w') \<and> ShutdownIsSet True \<in> set evs \<and>
    ShutdownIsSet False \<notin> set (after_shutdown evs)"
  then have given: "start loads self s w = (x, evs, w')" "ShutdownIsSet True \<in> set evs"
    "ShutdownIsSet False \<notin> set (after_shutdown evs)" by simp_all
  show "(after_shutdown evs = [] \<and> x = Running \<or>
       after_shutdown evs = [farewell] \<and> x = Exited \<or>
       after_shutdown evs = [ShutdownIsSet True, farewell] \<and> x = Exited) \<and>
      RedisGet \<notin> set (after_shutdown evs) \<and> (\<forall>m. RedisAck m \<notin> set (after_shutdown evs)) \<and>
      (x = Running \<longrightarrow> (\<forall>it. shutdown_answer it \<longrightarrow>
         start loads self (s\<lparr>iterations := iterations s @ [it]\<rparr>) w =
           (Exited, evs @ [ShutdownIsSet True, farewell], w')))"
  proof -
    have main: "(after_shutdown evs = [] \<and> x = Running \<or>
            after_shutdown evs = [farewell] \<and> x = Exited \<or>
            after_shutdown evs = [ShutdownIsSet True, farewell] \<and> x = Exited) \<and>
           (x = Running \<longrightarrow> (\<forall>it. shutdown_answer it \<longrightarrow>
              start loads self (s\<lparr>iterations := iterations s @ [it]\<rparr>) w =
                (Exited, evs @ [ShutdownIsSet True, farewell], w')))"
      using given(1)
    proof (cases rule: start_cases)
      case (unsettled pre)
      with given(2) settling_facts(1)[of pre] show ?thesis by simp
    next
      case (shut pre later)
      have as: "after_shutdown evs = later"
        unfolding shut(1) using settling_facts(1)[OF shut(2)] by (rule after_shutdown_first)
      with given(3) have "ShutdownIsSet False \<notin> set later" by simp
      from main_loop_after_shutdown_seen[OF shut(3) this]
      show ?thesis
      proof
        assume a: "iterations s = [] \<and> later = [] \<and> x = Running \<and> w' = w"
        then have "\<forall>it. shutdown_answer it \<longrightarrow>
              start loads self (s\<lparr>iterations := iterations s @ [it]\<rparr>) w =
                (Exited, evs @ [ShutdownIsSet True, farewell], w')"
          using shut(1,4) by (simp add: farewell_def)
        with a as show ?thesis by simp
      next
        assume "iterations s \<noteq> [] \<and> later = [ShutdownIsSet True, farewell] \<and> x = Exited \<and> w' = w"
        with as show ?thesis by simp
      qed
    next
      case (ready pre body later)
      let ?sevs = "pre @ [HealthCheck (cog_http_base self @ ''/health-check'') (HealthResponse 200 (Some body)),
                completed_setup]"
      have ns: "ShutdownIsSet True \<notin> set ?sevs"
        using settling_facts(1)[OF ready(2)] by (simp add: completed_setup_def)
      have as: "after_shutdown evs = after_shutdown later"
        unfolding ready(1) using ns by (rule after_shutdown_append)
      have "ShutdownIsSet True \<in> set later" using given(2) ns unfolding ready(1) by auto
      from main_loop_shutdown[OF ready(4) this] given(3) as
      have m: "(after_shutdown later = [] \<and> x = Running \<or>
            after_shutdown later = [farewell] \<and> x = Exited \<or>
            after_shutdown later = [ShutdownIsSet True, farewell] \<and> x = Exited)"
        "x = Running \<longrightarrow> (\<forall>it. shutdown_answer it \<longrightarrow>
              main_loop loads self (iterations s @ [it]) w = (Exited, later @ [ShutdownIsSet True, farewell], w'))"
        by simp_all
      have "x = Running \<longrightarrow> (\<forall>it. shutdown_answer it \<longrightarrow>
              start loads self (s\<lparr>iterations := iterations s @ [it]\<rparr>) w =
                (Exited, evs @ [ShutdownIsSet True, farewell], w'))"
        using m(2) ready(1,5) by simp
      with m(1) as show ?thesis by simp
    qed
    then have "after_shutdown evs = [] \<or> after_shutdown evs = [farewell] \<or>
        after_shutdown evs = [ShutdownIsSet True, farewell]" by blast
    then have "RedisGet \<notin> set (after_shutdown evs) \<and> (\<forall>m. RedisAck m \<notin> set (after_shutdown evs))"
      by (auto simp: farewell_def)
    with main show ?thesis by blast
  qed
next
  assume "get_answer c = GetOk mid js \<and> loads js = Some message \<and> subscript message ''id'' = Inr pid \<and>
    request_outcome (post_answer c) = Inr () \<and>
    polls c = qs @ p # rest \<and> (\<forall>q \<in> set qs. uneventful self pid q) \<and>
    \<not> wait_result p \<and> shutdown_set p"
  then have dispatched: "get_answer c = GetOk mid js" "loads js = Some message"
    "subscript message ''id'' = Inr pid" "request_outcome (post_answer c) = Inr ()"
    "polls c = qs @ p # rest" "\<forall>q \<in> set qs. uneventful self pid q"
    "\<not> wait_result p" "shutdown_set p" by simp_all
  show "case handle_message loads self c w0 of
         (out, hevs, w1) \<Rightarrow>
           (\<forall>m. RedisAck m \<notin> set hevs) \<and> EventWait True \<notin> set hevs \<and>
           count_list hevs (EventWait False) = Suc (length qs) \<and>
           count_list hevs (ShutdownIsSet False) = length qs \<and>
           ((should_cancel p \<longrightarrow> fst (cancel_prediction self pid (cancel_result p)) = Inr ()) \<longrightarrow>
              out = Returned \<and>
              (\<exists>before. hevs = before @ [ShutdownIsSet True] \<and> ShutdownIsSet True \<notin> set before)) \<and>
           (\<forall>e. should_cancel p \<and> fst (cancel_prediction self pid (cancel_result p)) = Inl e \<longrightarrow>
              out = Raised e \<and> ShutdownIsSet True \<notin> set hevs)"
    by (rule handle_message_shutdown_pass[where loads=loads, OF dispatched])
qed

theorem shutdown_is_terminal_witness:
  "start example_loads (init 0) interrupted_script empty_world =
     (Exited,
      [ShutdownIsSet False,
       HealthCheck ''http://localhost:5000/health-check'' (HealthResponse 200 (Some ready_body)),
       completed_setup,
       ShutdownIsSet False,
       RedisGet, RedisChecker (JStr ''c1''), PipePoll False, PipeSend example_message, EventClear,
       PostPrediction ''http://localhost:5000/predictions''
         (JObj [(''id'', JStr ''p1''), (''cancel_key'', JStr ''c1''), (''input'', JObj [(''x'', JNum 3)]),
                (''webhook'', JStr ''http://localhost:4900/webhook'')])
         (Response 202),
       EventWait False, ShouldCancel False, ShutdownIsSet False,
       EventWait False, ShouldCancel False, ShutdownIsSet True,
       ShutdownIsSet True, farewell],
      \<lparr>pipe_in = [], pipe_out = [example_message], prediction_event = False\<rparr>) \<and>
   after_shutdown (fst (snd (start example_loads (init 0) interrupted_script empty_world))) =
     [ShutdownIsSet True, farewell] \<and>
   (\<forall>m. RedisAck m \<notin> set (after_shutdown (fst (snd (start example_loads (init 0) interrupted_script empty_world))))) \<and>
   polls cancelled_at_shutdown_cycle = [quiet] @ cancelled_at_shutdown # [completes] \<and>
   uneventful (init 0) (JStr ''p1'') quiet \<and>
   \<not> wait_result cancelled_at_shutdown \<and> shutdown_set cancelled_at_shutdown \<and>
   handle_message example_loads (init 0) cancelled_at_shutdown_cycle empty_world =
     (Returned,
      [RedisGet, RedisChecker (JStr ''c1''), PipePoll False, PipeSend example_message, EventClear,
       PostPrediction ''http://localhost:5000/predictions''
         (JObj [(''id'', JStr ''p1''), (''cancel_key'', JStr ''c1''), (''input'', JObj [(''x'', JNum 3)]),
                (''webhook'', JStr ''http://localhost:4900/webhook'')])
         (Response 202),
       EventWait False, ShouldCancel False, ShutdownIsSet False,
       EventWait False, ShouldCancel True,
       PostCancel ''http://localhost:5000/predictions/p1/cancel'' (Response 200),
       ShutdownIsSet True],
      \<lparr>pipe_in = [], pipe_out = [example_message], prediction_event = False\<rparr>) \<and>
   (\<forall>m. RedisAck m \<notin>
      set (fst (snd (handle_message example_loads (init 0) cancelled_at_shutdown_cycle empty_world)))) \<and>
   count_list (fst (snd (handle_message example_loads (init 0) cancelled_at_shutdown_cycle empty_world)))
     (EventWait False) = 2"
proof -
  let ?evs = "[ShutdownIsSet False,
       HealthCheck ''http://localhost:5000/health-check'' (HealthResponse 200 (Some ready_body)),
       completed_setup,
       ShutdownIsSet False,
       RedisGet, RedisChecker (JStr ''c1''), PipePoll False, PipeSend example_message, EventClear,
       PostPrediction ''http://localhost:5000/predictions''
         (JObj [(''id'', JStr ''p1''), (''cancel_key'', JStr ''c1''), (''input'', JObj [(''x'', JNum 3)]),
                (''webhook'', JStr ''http://localhost:4900/webhook'')])
         (Response 202),
       EventWait False, ShouldCancel False, ShutdownIsSet False,
       EventWait False, ShouldCancel False, ShutdownIsSet True,
       ShutdownIsSet True, farewell]"
  let ?w = "\<lparr>pipe_in = [], pipe_out = [example_message], prediction_event = False\<rparr>"
  have run: "start example_loads (init 0) interrupted_script empty_world = (Exited, ?evs, ?w)"
    by (simp add: run_defs example_defs)
  have seen: "ShutdownIsSet True \<in> set ?evs" by simp
  have as: "after_shutdown ?evs = [ShutdownIsSet True, farewell]"
    by (simp add: completed_setup_def farewell_def)
  have kept: "ShutdownIsSet False \<notin> set (after_shutdown ?evs)"
    unfolding as by (simp add: farewell_def)
  note inst = shutdown_is_terminal[where loads=example_loads and self="init 0" and s=interrupted_script
      and w=empty_world and x=Exited and evs="?evs" and w'="?w"
      and c=cancelled_at_shutdown_cycle and mid="''1-0''" and js="''message p1''"
      and message=example_message and pid="JStr ''p1''" and qs="[quiet]" and p=cancelled_at_shutdown
      and rest="[completes]" and ?w0.0=empty_world]
  from inst[THEN conjunct1] run seen kept
  have first: "RedisGet \<notin> set (after_shutdown ?evs) \<and> (\<forall>m. RedisAck m \<notin> set (after_shutdown ?evs))"
    by blast
  have dispatched: "get_answer cancelled_at_shutdown_cycle = GetOk ''1-0'' ''message p1''"
    "example_loads ''message p1'' = Some example_message"
    "subscript example_message ''id'' = Inr (JStr ''p1'')"
    "request_outcome (post_answer cancelled_at_shutdown_cycle) = Inr ()"
    by (simp_all add: cancelled_at_shutdown_cycle_def example_defs)
  have passes: "polls cancelled_at_shutdown_cycle = [quiet] @ cancelled_at_shutdown # [completes]"
    "\<forall>q \<in> set [quiet]. uneventful (init 0) (JStr ''p1'') q"
    "\<not> wait_result cancelled_at_shutdown" "shutdown_set cancelled_at_shutdown"
    by (simp_all add: cancelled_at_shutdown_cycle_def cancelled_at_shutdown_def uneventful_def example_defs)
  have went_through: "should_cancel cancelled_at_shutdown \<longrightarrow>
      fst (cancel_prediction (init 0) (JStr ''p1'') (cancel_result cancelled_at_shutdown)) = Inr ()"
    by (simp add: cancelled_at_shutdown_def example_defs)
  have second: "case handle_message example_loads (init 0) cancelled_at_shutdown_cycle empty_world of
         (out, hevs, w1) \<Rightarrow>
           (\<forall>m. RedisAck m \<notin> set hevs) \<and> EventWait True \<notin> set hevs \<and>
           count_list hevs (EventWait False) = Suc (length [quiet]) \<and>
           count_list hevs (ShutdownIsSet False) = length [quiet] \<and>
           ((should_cancel cancelled_at_shutdown \<longrightarrow>
               fst (cancel_prediction (init 0) (JStr ''p1'') (cancel_result cancelled_at_shutdown)) = Inr ()) \<longrightarrow>
              out = Returned \<and>
              (\<exists>before. hevs = before @ [ShutdownIsSet True] \<and> ShutdownIsSet True \<notin> set before)) \<and>
           (\<forall>e. should_cancel cancelled_at_shutdown \<and>
               fst (cancel_prediction (init 0) (JStr ''p1'') (cancel_result cancelled_at_shutdown)) = Inl e \<longrightarrow>
              out = Raised e \<and> ShutdownIsSet True \<notin> set hevs)"
    by (rule inst[THEN conjunct2, THEN mp]) (intro conjI dispatched passes)
  have call: "handle_message example_loads (init 0) cancelled_at_shutdown_cycle empty_world =
     (Returned,
      [RedisGet, RedisChecker (JStr ''c1''), PipePoll False, PipeSend example_message, EventClear,
       PostPrediction ''http://localhost:5000/predictions''
         (JObj [(''id'', JStr ''p1''), (''cancel_key'', JStr ''c1''), (''input'', JObj [(''x'', JNum 3)]),
                (''webhook'', JStr ''http://localhost:4900/webhook'')])
         (Response 202),
       EventWait False, ShouldCancel False, ShutdownIsSet False,
       EventWait False, ShouldCancel True,
       PostCancel ''http://localhost:5000/predictions/p1/cancel'' (Response 200),
       ShutdownIsSet True],
      ?w)"
    by (simp add: handle_message_def cancelled_at_shutdown_cycle_def cancelled_at_shutdown_def example_defs)
  from second went_through
  have third: "(\<forall>m. RedisAck m \<notin>
      set (fst (snd (handle_message example_loads (init 0) cancelled_at_shutdown_cycle empty_world)))) \<and>
    count_list (fst (snd (handle_message example_loads (init 0) cancelled_at_shutdown_cycle empty_world)))
      (EventWait False) = 2"
    by (simp split: prod.splits)
  from first third run as call passes show ?thesis by simp
qed


subsection \<open>Setup\<close>

text \<open>
  Claim C6. A run of \<^verbatim>\<open>start\<close> that dequeues (and whose shutdown event is never
  cleared) has seen a health check answered with status code 200 and a body whose
  \<^verbatim>\<open>status\<close> is "healthy" and whose \<^verbatim>\<open>setup\<close> is not null and has the
  \<^verbatim>\<open>status\<close> "succeeded"; the setup loop ended right there, before any dequeue.
  A health check that raises a \<^verbatim>\<open>RequestException\<close> is passed over: the pass is
  counted, the loop sleeps and polls again.
\<close>

theorem dequeue_only_after_setup_succeeded:
  "(start loads self s w = (x, evs, w') \<and> RedisGet \<in> set evs \<and>
      ShutdownIsSet False \<notin> set (after_shutdown evs) \<longrightarrow>
      (\<exists>before u body setup later.
         evs = before @ [HealthCheck u (HealthResponse 200 (Some body)), completed_setup] @ later \<and>
         RedisGet \<notin> set before \<and>
         subscript body ''status'' = Inr (JStr ''healthy'') \<and>
         subscript body ''setup'' = Inr setup \<and> setup \<noteq> JNull \<and>
         subscript setup ''status'' = Inr (JStr ''succeeded''))) \<and>
   (\<not> setup_shutdown p \<and> health p = HealthFailed \<longrightarrow>
      setup_wait self (p # ps) n =
        (case setup_wait self ps (Suc n) of
           (exit, later) \<Rightarrow>
             (exit, [ShutdownIsSet False, HealthCheck (cog_http_base self @ ''/health-check'') HealthFailed]
                    @ poll_again n @ later)))"
proof -
  have retry: "\<not> setup_shutdown p \<and> health p = HealthFailed \<longrightarrow>
      setup_wait self (p # ps) n =
        (case setup_wait self ps (Suc n) of
           (exit, later) \<Rightarrow>
             (exit, [ShutdownIsSet False, HealthCheck (cog_http_base self @ ''/health-check'') HealthFailed]
                    @ poll_again n @ later))"
    by (simp add: Let_def)
  have "\<exists>before u body setup later.
         evs = before @ [HealthCheck u (HealthResponse 200 (Some body)), completed_setup] @ later \<and>
         RedisGet \<notin> set before \<and>
         subscript body ''status'' = Inr (JStr ''healthy'') \<and>
         subscript body ''setup'' = Inr setup \<and> setup \<noteq> JNull \<and>
         subscript setup ''status'' = Inr (JStr ''succeeded'')"
    if run: "start loads self s w = (x, evs, w')" and got: "RedisGet \<in> set evs"
      and kept: "ShutdownIsSet False \<notin> set (after_shutdown evs)"
    using run
  proof (cases rule: start_cases)
    case (unsettled pre)
    with got settling_facts(2)[of pre] show ?thesis by simp
  next
    case (shut pre later)
    have as: "after_shutdown evs = later"
      unfolding shut(1) using settling_facts(1)[OF shut(2)] by (rule after_shutdown_first)
    with kept have "ShutdownIsSet False \<notin> set later" by simp
    from main_loop_after_shutdown_seen[OF shut(3) this] have "RedisGet \<notin> set later"
      by (auto simp: farewell_def)
    with got settling_facts(2)[OF shut(2)] show ?thesis unfolding shut(1) by simp
  next
    case (ready pre body later)
    from ready(3) obtain sub where "subscript body ''status'' = Inr (JStr ''healthy'')"
      "subscript body ''setup'' = Inr sub" "sub \<noteq> JNull" "subscript sub ''status'' = Inr (JStr ''succeeded'')"
      unfolding setup_succeeded_True by blast
    with ready(1) settling_facts(2)[OF ready(2)] show ?thesis
      by (intro exI[of _ pre] exI[of _ "cog_http_base self @ ''/health-check''"] exI[of _ body]
          exI[of _ sub] exI[of _ later]) simp
  qed
  with retry show ?thesis by blast
qed

theorem dequeue_only_after_setup_succeeded_witness:
  "start example_loads (init 0) example_script empty_world =
     (Exited,
      [ShutdownIsSet False, HealthCheck ''http://localhost:5000/health-check'' HealthFailed, Sleep,
       ShutdownIsSet False,
       HealthCheck ''http://localhost:5000/health-check'' (HealthResponse 200 (Some ready_body)),
       completed_setup,
       ShutdownIsSet False,
       RedisGet, RedisChecker (JStr ''c1''), PipePoll False, PipeSend example_message, EventClear,
       PostPrediction ''http://localhost:5000/predictions''
         (JObj [(''id'', JStr ''p1''), (''cancel_key'', JStr ''c1''), (''input'', JObj [(''x'', JNum 3)]),
                (''webhook'', JStr ''http://localhost:4900/webhook'')])
         (Response 202),
       EventWait False, ShouldCancel False, ShutdownIsSet False,
       EventWait False, ShouldCancel False, ShutdownIsSet False,
       EventWait True, RedisAck ''1-0'',
       ShutdownIsSet True, farewell],
      \<lparr>pipe_in = [], pipe_out = [example_message], prediction_event = True\<rparr>) \<and>
   (\<exists>before u body sub later.
      fst (snd (start example_loads (init 0) example_script empty_world)) =
        before @ [HealthCheck u (HealthResponse 200 (Some body)), completed_setup] @ later \<and>
      RedisGet \<notin> set before \<and>
      subscript body ''status'' = Inr (JStr ''healthy'') \<and>
      subscript body ''setup'' = Inr sub \<and> sub \<noteq> JNull \<and>
      subscript sub ''status'' = Inr (JStr ''succeeded'')) \<and>
   setup_wait (init 0) [container_starting, container_ready] 0 =
     (SetupCompleted,
      [ShutdownIsSet False, HealthCheck ''http://localhost:5000/health-check'' HealthFailed, Sleep,
       ShutdownIsSet False,
       HealthCheck ''http://localhost:5000/health-check'' (HealthResponse 200 (Some ready_body)),
       completed_setup])"
proof -
  let ?evs = "[ShutdownIsSet False, HealthCheck ''http://localhost:5000/health-check'' HealthFailed, Sleep,
       ShutdownIsSet False,
       HealthCheck ''http://localhost:5000/health-check'' (HealthResponse 200 (Some ready_body)),
       completed_setup,
       ShutdownIsSet False,
       RedisGet, RedisChecker (JStr ''c1''), PipePoll False, PipeSend example_message, EventClear,
       PostPrediction ''http://localhost:5000/predictions''
         (JObj [(''id'', JStr ''p1''), (''cancel_key'', JStr ''c1''), (''input'', JObj [(''x'', JNum 3)]),
                (''webhook'', JStr ''http://localhost:4900/webhook'')])
         (Response 202),
       EventWait False, ShouldCancel False, ShutdownIsSet False,
       EventWait False, ShouldCancel False, ShutdownIsSet False,
       EventWait True, RedisAck ''1-0'',
       ShutdownIsSet True, farewell]"
  have run: "start example_loads (init 0) example_script empty_world =
     (Exited, ?evs, \<lparr>pipe_in = [], pipe_out = [example_message], prediction_event = True\<rparr>)"
    by (simp add: run_defs example_defs)
  have got: "RedisGet \<in> set ?evs" by simp
  have kept: "ShutdownIsSet False \<notin> set (after_shutdown ?evs)"
    by (simp add: completed_setup_def farewell_def)
  have start: "\<not> setup_shutdown container_starting \<and> health container_starting = HealthFailed"
    by (simp add: container_starting_def)
  have second: "setup_wait (init 0) [container_ready] (Suc 0) =
     (SetupCompleted,
      [ShutdownIsSet False,
       HealthCheck ''http://localhost:5000/health-check'' (HealthResponse 200 (Some ready_body)),
       completed_setup])"
    by (simp add: run_defs example_defs)
  note inst = dequeue_only_after_setup_succeeded[where loads=example_loads and self="init 0"
      and s=example_script and w=empty_world and x=Exited and evs="?evs"
      and w'="\<lparr>pipe_in = [], pipe_out = [example_message], prediction_event = True\<rparr>"
      and p=container_starting and ps="[container_ready]" and n=0]
  from inst run got kept have a: "\<exists>before u body sub later.
      ?evs = before @ [HealthCheck u (HealthResponse 200 (Some body)), completed_setup] @ later \<and>
      RedisGet \<notin> set before \<and>
      subscript body ''status'' = Inr (JStr ''healthy'') \<and>
      subscript body ''setup'' = Inr sub \<and> sub \<noteq> JNull \<and>
      subscript sub ''status'' = Inr (JStr ''succeeded'')" by blast
  from inst start second have b: "setup_wait (init 0) [container_starting, container_ready] 0 =
     (SetupCompleted,
      [ShutdownIsSet False, HealthCheck ''http://localhost:5000/health-check'' HealthFailed, Sleep,
       ShutdownIsSet False,
       HealthCheck ''http://localhost:5000/health-check'' (HealthResponse 200 (Some ready_body)),
       completed_setup])"
    by (simp add: poll_again_def liveness_period_def init_def)
  from a b run show ?thesis by simp
qed

subsection \<open>The channel\<close>

lemma of_char_of_small: "n < 256 \<Longrightarrow> of_char (char_of n) = (n::nat)"
  by simp

lemma dec_enc_nat: "dec_nat (enc_nat n @ rest) = Some (n, rest)"
proof (induction n rule: enc_nat.induct)
  case (1 n)
  show ?case
  proof (cases "n < 128")
    case True
    then show ?thesis by (simp add: enc_nat.simps[of n])
  next
    case False
    have "128 + n mod 128 < 256" by simp
    then have oc: "of_char (char_of (128 + n mod 128)) = 128 + n mod 128"
      by (rule of_char_of_small)
    from False 1 oc show ?thesis
      by (subst enc_nat.simps) simp
  qed
qed

lemma dec_enc_str: "dec_str (enc_str s @ rest) = Some (s, rest)"
  by (simp add: dec_str_def enc_str_def dec_enc_nat)

lemma dec_items_enc:
  assumes "\<And>x fuel' rest'. x \<in> set xs \<Longrightarrow> weight x \<le> fuel' \<Longrightarrow>
             dec_json fuel' (enc_json x @ rest') = Some (x, rest')"
    and "sum_list (map weight xs) \<le> fuel"
  shows "dec_items fuel (length xs) (concat (map enc_json xs) @ rest) = Some (xs, rest)"
  using assms
proof (induction xs arbitrary: rest)
  case Nil
  then show ?case by simp
next
  case (Cons x xs)
  have x: "dec_json fuel (enc_json x @ concat (map enc_json xs) @ rest) = Some (x, concat (map enc_json xs) @ rest)"
    using Cons.prems by simp
  have xs: "dec_items fuel (length xs) (concat (map enc_json xs) @ rest) = Some (xs, rest)"
    using Cons.prems by (intro Cons.IH) auto
  from x xs show ?case by simp
qed

lemma dec_fields_enc:
  assumes "\<And>k v fuel' rest'. (k, v) \<in> set kvs \<Longrightarrow> weight v \<le> fuel' \<Longrightarrow>
             dec_json fuel' (enc_json v @ rest') = Some (v, rest')"
    and "sum_list (map (\<lambda>(k, v). weight v) kvs) \<le> fuel"
  shows "dec_fields fuel (length kvs) (concat (map (\<lambda>(k, v). enc_str k @ enc_json v) kvs) @ rest) =
           Some (kvs, rest)"
  using assms
proof (induction kvs arbitrary: rest)
  case Nil
  then show ?case by simp
next
  case (Cons kv kvs)
  obtain k v where kv: "kv = (k, v)" by (cases kv)
  let ?tail = "concat (map (\<lambda>(k, v). enc_str k @ enc_json v) kvs) @ rest"
  have "(k, v) \<in> set (kv # kvs)" "weight v \<le> fuel" using Cons.prems(2) kv by simp_all
  then have v: "dec_json fuel (enc_json v @ ?tail) = Some (v, ?tail)"
    by (rule Cons.prems(1))
  have kvs: "dec_fields fuel (length kvs) ?tail = Some (kvs, rest)"
    using Cons.prems by (intro Cons.IH) auto
  from v kvs show ?case by (simp add: kv dec_enc_str)
qed

lemma dec_enc_json: "weight v \<le> fuel \<Longrightarrow> dec_json fuel (enc_json v @ rest) = Some (v, rest)"
proof (induction v arbitrary: fuel rest)
  case JNull
  then show ?case by (cases fuel) simp_all
next
  case (JBool b)
  then show ?case by (cases fuel) simp_all
next
  case (JNum i)
  then show ?case by (cases fuel) (simp_all add: dec_enc_nat)
next
  case (JStr s)
  then show ?case by (cases fuel) (simp_all add: dec_enc_str)
next
  case (JArr xs)
  then obtain f where f: "fuel = Suc f" "sum_list (map weight xs) \<le> f" by (cases fuel) auto
  have "dec_items f (length xs) (concat (map enc_json xs) @ rest) = Some (xs, rest)"
    using JArr.IH f(2) by (intro dec_items_enc) auto
  then show ?case by (simp add: f(1) dec_enc_nat)
next
  case (JObj kvs)
  then obtain f where f: "fuel = Suc f" "sum_list (map (\<lambda>(k, v). weight v) kvs) \<le> f" by (cases fuel) auto
  have "dec_fields f (length kvs) (concat (map (\<lambda>(k, v). enc_str k @ enc_json v) kvs) @ rest) = Some (kvs, rest)"
    using JObj.IH f(2) by (intro dec_fields_enc) (auto simp: snds.simps)
  then show ?case by (simp add: f(1) dec_enc_nat)
qed

lemma sum_list_le_concat:
  assumes "\<And>x. x \<in> set xs \<Longrightarrow> f x \<le> length (g x)"
  shows "sum_list (map f xs) \<le> length (concat (map g xs))"
  using assms by (induction xs) (auto simp: add_mono)

lemma weight_le_length: "weight v \<le> length (enc_json v)"
proof (induction v)
  case (JArr xs)
  have "sum_list (map weight xs) \<le> length (concat (map enc_json xs))"
    using JArr.IH by (intro sum_list_le_concat) auto
  then show ?case by simp
next
  case (JObj kvs)
  have "sum_list (map (\<lambda>(k, v). weight v) kvs) \<le> length (concat (map (\<lambda>(k, v). enc_str k @ enc_json v) kvs))"
  proof (intro sum_list_le_concat)
    fix kv assume mem: "kv \<in> set kvs"
    obtain k v where kv: "kv = (k, v)" by (cases kv)
    have "weight v \<le> length (enc_json v)"
      using JObj.IH[of kv v] mem kv by (simp add: snds.simps)
    then show "(case kv of (k, v) \<Rightarrow> weight v) \<le> length (case kv of (k, v) \<Rightarrow> enc_str k @ enc_json v)"
      by (simp add: kv)
  qed
  then show ?case by simp
qed simp_all

lemma decode_encode: "decode (encode m) = Some m"
proof (cases m)
  case (Pair cid ev)
  show ?thesis
  proof (cases ev)
    case (PredictionOutput payload)
    have "dec_json (length (enc_json payload)) (enc_json payload @ []) = Some (payload, [])"
      using weight_le_length by (rule dec_enc_json)
    then show ?thesis by (simp add: Pair PredictionOutput decode_def encode_def dec_enc_str)
  next
    case (PredictionLog line)
    have "dec_str (enc_str line @ []) = Some (line, [])" by (rule dec_enc_str)
    then show ?thesis by (simp add: Pair PredictionLog decode_def encode_def dec_enc_str)
  qed
qed

lemma read_frame_whole: "read_frame (frame (encode m) @ rest) = Message m rest"
  by (simp add: read_frame_def frame_def dec_enc_nat decode_encode)

lemma enc_nat_nonempty: "enc_nat n \<noteq> []"
  by (subst enc_nat.simps) simp

lemma dec_nat_prefix: "k < length (enc_nat n) \<Longrightarrow> dec_nat (take k (enc_nat n)) = None"
proof (induction n arbitrary: k rule: enc_nat.induct)
  case (1 n)
  show ?case
  proof (cases "n < 128")
    case True
    with 1(2) show ?thesis by (simp add: enc_nat.simps[of n])
  next
    case False
    have "128 + n mod 128 < 256" by simp
    then have oc: "of_char (char_of (128 + n mod 128)) = 128 + n mod 128"
      by (rule of_char_of_small)
    have e: "enc_nat n = char_of (128 + n mod 128) # enc_nat (n div 128)"
      using False by (subst enc_nat.simps) simp
    show ?thesis
    proof (cases k)
      case 0
      then show ?thesis by simp
    next
      case (Suc j)
      with 1(2) e have "j < length (enc_nat (n div 128))" by simp
      from 1(1)[OF False this] show ?thesis by (simp add: e Suc oc)
    qed
  qed
qed

lemma read_frame_part:
  assumes "k < length (frame body)"
  shows "read_frame (take k (frame body)) = Incomplete"
proof (cases "k < length (enc_nat (length body))")
  case True
  then have "take k (frame body) = take k (enc_nat (length body))" by (simp add: frame_def)
  with dec_nat_prefix[OF True] show ?thesis by (simp add: read_frame_def)
next
  case False
  define j where "j = k - length (enc_nat (length body))"
  have j: "j < length body" using assms False by (simp add: j_def frame_def)
  have "take k (frame body) = enc_nat (length body) @ take j body"
    using False by (simp add: frame_def j_def)
  with j show ?thesis by (simp add: read_frame_def dec_enc_nat)
qed

lemma async_recv_assembles:
  "buf @ concat chunks = frame (encode m) \<Longrightarrow>
     \<exists>left. async_recv chunks buf = Done m [] left \<and> concat left = []"
proof (induction chunks arbitrary: buf)
  case Nil
  then have "read_frame buf = Message m []" using read_frame_whole[of m "[]"] by simp
  then show ?case by simp
next
  case (Cons chunk chunks)
  show ?case
  proof (cases "length buf < length (frame (encode m))")
    case True
    have "buf = take (length buf) (frame (encode m))"
      using Cons.prems by (metis append_eq_conv_conj)
    with read_frame_part[OF True] have "read_frame buf = Incomplete" by simp
    moreover have "\<exists>left. async_recv chunks (buf @ chunk) = Done m [] left \<and> concat left = []"
      using Cons.prems by (intro Cons.IH) simp
    ultimately show ?thesis by simp
  next
    case False
    with Cons.prems have "buf = frame (encode m)" "concat (chunk # chunks) = []"
      by (metis append_eq_conv_conj length_append not_add_less1 take_all_iff append_self_conv le_add1 linorder_not_less)+
    then show ?thesis using read_frame_whole[of m "[]"] by simp
  qed
qed

text \<open>
  Claim C7, on the channel as modelled from the spec. For every message: what the
  suspension-based \<^verbatim>\<open>send\<close> writes, the blocking \<^verbatim>\<open>recv\<close> reads back as that
  message, with nothing left over; the two \<^verbatim>\<open>send\<close>s write the same bytes; and
  what the blocking \<^verbatim>\<open>send\<close> writes, the suspension-based \<^verbatim>\<open>recv\<close> reads
  back as that message, in however many chunks the bytes arrive.
\<close>

theorem both_conventions_round_trip:
  "recv (async_send m []) = Message m [] \<and>
   async_send m buf = send m buf \<and>
   (\<forall>chunks. concat chunks = send m [] \<longrightarrow>
      (\<exists>left. async_recv chunks [] = Done m [] left \<and> concat left = []))"
proof -
  have "recv (async_send m []) = Message m []"
    using read_frame_whole[of m "[]"] by (simp add: recv_def async_send_def)
  moreover have "async_send m buf = send m buf" by (simp add: async_send_def send_def)
  moreover have "\<exists>left. async_recv chunks [] = Done m [] left \<and> concat left = []"
    if "concat chunks = send m []" for chunks
    using that async_recv_assembles[of "[]" chunks m] by (simp add: send_def)
  ultimately show ?thesis by blast
qed

theorem both_conventions_round_trip_witness:
  "concat [take 3 (send test_item []), drop 3 (send test_item [])] = send test_item [] \<and>
   (\<exists>left. async_recv [take 3 (send test_item []), drop 3 (send test_item [])] [] = Done test_item [] left \<and>
      concat left = []) \<and>
   recv (async_send test_item []) = Message test_item []"
proof -
  have c: "concat [take 3 (send test_item []), drop 3 (send test_item [])] = send test_item []" by simp
  from both_conventions_round_trip[of test_item "[]"] c show ?thesis by blast
qed

end
